theory Spec2Isabelle
  imports Complex_Main
begin

unbundle bit_operations_syntax

section \<open>Numbers, exceptions and loops of the Python source\<close>

text \<open>
  The module \<^verbatim>\<open>src/p5/core/primitives3d.py\<close> builds triangle meshes. Python's
  \<^verbatim>\<open>int\<close> is modelled by \<^typ>\<open>int\<close>; Python's \<^verbatim>\<open>float\<close> (and every
  coordinate, whether the source writes it as an integer literal or computes it) is
  idealised as \<^typ>\<open>real\<close>, with \<^verbatim>\<open>math.sin\<close>, \<^verbatim>\<open>math.cos\<close> and
  \<^verbatim>\<open>math.pi\<close> as the mathematical functions: rounding is not modelled.
  An exception is a value \<open>Inl e\<close> of the result type \<open>error + 'a\<close>.
\<close>

datatype error = ZeroDivisionError | UnboundLocalError

text \<open>Sequencing of two computations, the first of which may raise.\<close>

definition and_then :: "error + 'a \<Rightarrow> ('a \<Rightarrow> error + 'b) \<Rightarrow> error + 'b" where
  "and_then r k = (case r of Inl e \<Rightarrow> Inl e | Inr x \<Rightarrow> k x)"

text \<open>Python's true division \<^verbatim>\<open>a / b\<close>, which raises on a zero divisor.\<close>

definition truediv :: "real \<Rightarrow> real \<Rightarrow> error + real" where
  "truediv a b = (if b = 0 then Inl ZeroDivisionError else Inr (a / b))"

text \<open>Python's \<^verbatim>\<open>a % b\<close> on integers; the sign follows the divisor, as with \<open>mod\<close>.\<close>

definition pymod :: "int \<Rightarrow> int \<Rightarrow> error + int" where
  "pymod a b = (if b = 0 then Inl ZeroDivisionError else Inr (a mod b))"

text \<open>\<^verbatim>\<open>range(n)\<close> and \<^verbatim>\<open>range(a, b)\<close>.\<close>

definition range1 :: "int \<Rightarrow> int list" where
  "range1 n = [0..n - 1]"

definition range2 :: "int \<Rightarrow> int \<Rightarrow> int list" where
  "range2 a b = [a..b - 1]"

text \<open>
  A \<^verbatim>\<open>for\<close> loop over a list whose body updates the loop state and may raise;
  the first exception ends the loop.
\<close>

fun for_loop :: "'i list \<Rightarrow> ('i \<Rightarrow> 's \<Rightarrow> error + 's) \<Rightarrow> 's \<Rightarrow> error + 's" where
  "for_loop [] body s = Inr s"
| "for_loop (i # is) body s =
     (case body i s of Inl e \<Rightarrow> Inl e | Inr s' \<Rightarrow> for_loop is body s')"

text \<open>
  \<^verbatim>\<open>math.atan2(y, x)\<close>, the angle of the point \<open>(x, y)\<close> in \<open>(-\<pi>, \<pi>]\<close>.
\<close>

definition atan2 :: "real \<Rightarrow> real \<Rightarrow> real" where
  "atan2 y x =
     (if 0 < x then arctan (y / x)
      else if x < 0 \<and> 0 \<le> y then arctan (y / x) + pi
      else if x < 0 then arctan (y / x) - pi
      else if 0 < y then pi / 2
      else if y < 0 then - (pi / 2)
      else 0)"

section \<open>The mesh container\<close>

text \<open>
  The class \<^verbatim>\<open>Geometry\<close> (module \<^verbatim>\<open>.geometry\<close>) and
  \<^verbatim>\<open>matrix.scale_transform\<close> (module \<^verbatim>\<open>..pmath\<close>) are imported by the source
  but are not part of it. The record holds the attributes that the source reads and
  writes. \<^verbatim>\<open>uvs\<close> is a flat list: the source extends it by two numbers for each
  UV pair.
\<close>

record geometry =
  detail_x :: int
  detail_y :: int
  vertices :: "real list list"
  vertex_normals :: "real list list"
  uvs :: "real list"
  faces :: "int list list"
  edges :: "int list list"
  stroke_indices :: "int list list"
  drawable_edges :: "int list list"
  matrix :: "real list list option"

text \<open>
  Modelled from the spec: the constructor \<^verbatim>\<open>Geometry(detail_x, detail_y)\<close> is
  missing. The spec: the container is "constructed with (detail_x, detail_y)", holds
  the two counts and starts with empty ordered sequences; no transform is attached yet.
\<close>

definition Geometry :: "int \<Rightarrow> int \<Rightarrow> geometry" where
  "Geometry dx dy =
     \<lparr>detail_x = dx, detail_y = dy, vertices = [], vertex_normals = [], uvs = [],
      faces = [], edges = [], stroke_indices = [], drawable_edges = [], matrix = None\<rparr>"

text \<open>
  Modelled from the spec: \<^verbatim>\<open>matrix.scale_transform\<close> is missing. The spec:
  it "builds a diagonal scale transform from three axis extents".
\<close>

definition scale_transform :: "real \<Rightarrow> real \<Rightarrow> real \<Rightarrow> real list list" where
  "scale_transform sx sy sz =
     [[sx, 0, 0, 0], [0, sy, 0, 0], [0, 0, sz, 0], [0, 0, 0, 1]]"

text \<open>
  Modelled from the spec: \<^verbatim>\<open>Geometry.compute_faces\<close> is missing. The spec: it
  derives \<^verbatim>\<open>faces\<close> from a \<open>(detail_y+1) \<times> (detail_x+1)\<close> row-major grid already
  present in \<^verbatim>\<open>vertices\<close> and "builds two triangles per grid cell".
\<close>

definition compute_faces :: "geometry \<Rightarrow> geometry" where
  "compute_faces geom =
     (let slice_count = detail_x geom + 1
      in geom\<lparr>faces :=
           concat (map (\<lambda>i. concat (map (\<lambda>j.
             (let a = i * slice_count + j;
                  b = i * slice_count + j + 1;
                  c = (i + 1) * slice_count + j + 1;
                  d = (i + 1) * slice_count + j
              in [[a, b, d], [d, b, c]])) (range1 (detail_x geom))))
             (range1 (detail_y geom)))\<rparr>)"

text \<open>Vector helpers for the normal derivation (three-element lists).\<close>

definition vsub :: "real list \<Rightarrow> real list \<Rightarrow> real list" where
  "vsub p q = map (\<lambda>(x, y). x - y) (zip p q)"

definition vadd :: "real list \<Rightarrow> real list \<Rightarrow> real list" where
  "vadd p q = map (\<lambda>(x, y). x + y) (zip p q)"

definition cross :: "real list \<Rightarrow> real list \<Rightarrow> real list" where
  "cross p q =
     [p ! 1 * q ! 2 - p ! 2 * q ! 1, p ! 2 * q ! 0 - p ! 0 * q ! 2,
      p ! 0 * q ! 1 - p ! 1 * q ! 0]"

definition normalize :: "real list \<Rightarrow> real list" where
  "normalize p = (let n = sqrt (sum_list (map (\<lambda>x. x * x) p)) in map (\<lambda>x. x / n) p)"

definition face_normal :: "real list list \<Rightarrow> int list \<Rightarrow> real list" where
  "face_normal vs f =
     (let a = vs ! nat (f ! 0); b = vs ! nat (f ! 1); c = vs ! nat (f ! 2)
      in normalize (cross (vsub b a) (vsub c a)))"

text \<open>
  Modelled from the spec: \<^verbatim>\<open>Geometry.compute_normals\<close> is missing. The spec: it
  will "derive/average vertex_normals from faces when not already populated"; one
  normal for each vertex, the normalised sum of the normals of the faces at it.
\<close>

definition compute_normals :: "geometry \<Rightarrow> geometry" where
  "compute_normals geom =
     (if vertex_normals geom \<noteq> [] then geom
      else geom\<lparr>vertex_normals :=
             map (\<lambda>k. normalize
                    (foldr vadd
                       (map (face_normal (vertices geom))
                          (filter (\<lambda>f. int k \<in> set f) (faces geom)))
                       [0, 0, 0]))
               [0..<length (vertices geom)]\<rparr>)"

text \<open>
  Modelled from the spec: \<^verbatim>\<open>Geometry.make_triangle_edges\<close> is missing. The
  spec: it will "derive per-triangle edge list from faces".
\<close>

definition triangle_sides :: "int list \<Rightarrow> int list list" where
  "triangle_sides f = [[f ! 0, f ! 1], [f ! 1, f ! 2], [f ! 2, f ! 0]]"

definition make_triangle_edges :: "geometry \<Rightarrow> geometry" where
  "make_triangle_edges geom = geom\<lparr>edges := concat (map triangle_sides (faces geom))\<rparr>"

text \<open>
  Modelled from the spec: \<^verbatim>\<open>Geometry.edges_to_vertices\<close> is missing. The spec:
  it will "deduplicate edges into a final drawable edge list", "the minimal set of
  unique drawable wireframe edges": an edge and its reverse are the same drawable
  edge, so each edge is put in ascending order before duplicates are removed.
\<close>

definition undirected :: "int list \<Rightarrow> int list" where
  "undirected e = [min (e ! 0) (e ! 1), max (e ! 0) (e ! 1)]"

definition edges_to_vertices :: "geometry \<Rightarrow> geometry" where
  "edges_to_vertices geom = geom\<lparr>drawable_edges := remdups (map undirected (edges geom))\<rparr>"

text \<open>The number of UV pairs of a mesh: the flat list holds two numbers for each pair.\<close>

definition uv_count :: "geometry \<Rightarrow> nat" where
  "uv_count geom = length (uvs geom) div 2"

text \<open>
  The invariant of the container that the spec states: there is one UV pair for each
  vertex, and the normals, when populated, are one for each vertex.
\<close>

definition parallel_lists :: "geometry \<Rightarrow> bool" where
  "parallel_lists geom \<longleftrightarrow>
     uv_count geom = length (vertices geom) \<and>
     (vertex_normals geom = [] \<or> length (vertex_normals geom) = length (vertices geom))"


section \<open>The primitive factories\<close>

text \<open>
  The decorator \<^verbatim>\<open>_draw_on_return\<close> hands the mesh that a factory returns to the
  renderer and returns it unchanged; the models below give the returned mesh.
\<close>

subsection \<open>box\<close>

definition cube_indices :: "int list list" where
  "cube_indices =
     [[0, 4, 2, 6], [1, 3, 5, 7], [0, 1, 4, 5], [2, 6, 3, 7], [0, 2, 1, 3], [4, 5, 6, 7]]"

definition box_stroke_indices :: "int list list" where
  "box_stroke_indices =
     [[0, 1], [1, 3], [3, 2], [6, 7], [8, 9], [9, 11], [14, 15], [16, 17], [17, 19],
      [18, 19], [20, 21], [22, 23]]"

text \<open>The body of the inner loop of \<^verbatim>\<open>box\<close>, for corner \<open>j\<close> of a face.\<close>

definition box_corner :: "int list \<Rightarrow> nat \<Rightarrow> geometry \<Rightarrow> geometry" where
  "box_corner cube_index j geom =
     (let d = cube_index ! j;
          octant = [real_of_int ((d AND 1) * 2 - 1) / 2, real_of_int ((d AND 2) - 1) / 2,
                    (real_of_int (d AND 4) / 2 - 1) / 2]
      in geom\<lparr>vertices := vertices geom @ [octant],
              uvs := uvs geom @ [real_of_int (int j AND 1), real_of_int (int j AND 2) / 2]\<rparr>)"

text \<open>The body of the outer loop of \<^verbatim>\<open>box\<close>, for face \<open>i\<close> of the cube.\<close>

definition box_face :: "nat \<Rightarrow> geometry \<Rightarrow> geometry" where
  "box_face i geom =
     (let cube_index = cube_indices ! i;
          v = int i * 4;
          geom = fold (box_corner cube_index) [0..<4] geom
      in geom\<lparr>faces := faces geom @ [[v, v + 1, v + 2]] @ [[v + 2, v + 1, v + 3]]\<rparr>)"

definition box :: "real \<Rightarrow> real \<Rightarrow> real \<Rightarrow> int \<Rightarrow> int \<Rightarrow> geometry" where
  "box width height depth dx dy =
     (let geom = Geometry dx dy;
          geom = geom\<lparr>stroke_indices := box_stroke_indices\<rparr>;
          geom = fold box_face [0..<length cube_indices] geom;
          geom = compute_normals geom;
          geom = make_triangle_edges geom
      in geom\<lparr>matrix := Some (scale_transform width height depth)\<rparr>)"

subsection \<open>plane\<close>

text \<open>The inner loop body of \<^verbatim>\<open>plane\<close>: one grid point in row \<open>v\<close>.\<close>

definition plane_point :: "int \<Rightarrow> real \<Rightarrow> int \<Rightarrow> geometry \<Rightarrow> error + geometry" where
  "plane_point dx v j geom =
     and_then (truediv (of_int j) (of_int dx)) (\<lambda>u.
       let p = [u - 0.5, v - 0.5, 0]
       in Inr (geom\<lparr>vertices := vertices geom @ [p], uvs := uvs geom @ [u, v]\<rparr>))"

definition plane_row :: "int \<Rightarrow> int \<Rightarrow> int \<Rightarrow> geometry \<Rightarrow> error + geometry" where
  "plane_row dx dy i geom =
     and_then (truediv (of_int i) (of_int dy)) (\<lambda>v.
       for_loop (range1 (dx + 1)) (plane_point dx v) geom)"

definition plane :: "real \<Rightarrow> real \<Rightarrow> int \<Rightarrow> int \<Rightarrow> error + geometry" where
  "plane width height dx dy =
     and_then (for_loop (range1 (dy + 1)) (plane_row dx dy) (Geometry dx dy)) (\<lambda>geom.
       let geom = compute_faces geom;
           geom = compute_normals geom;
           geom = make_triangle_edges geom;
           geom = edges_to_vertices geom
       in Inr (geom\<lparr>matrix := Some (scale_transform width height 1)\<rparr>))"

subsection \<open>ellipsoid and sphere\<close>

text \<open>The inner loop body of \<^verbatim>\<open>ellipsoid\<close>: one sample on the unit sphere.\<close>

definition ellipsoid_point ::
  "int \<Rightarrow> real \<Rightarrow> real \<Rightarrow> real \<Rightarrow> int \<Rightarrow> geometry \<Rightarrow> error + geometry" where
  "ellipsoid_point dx v cosPhi sinPhi j geom =
     and_then (truediv (of_int j) (of_int dx)) (\<lambda>u.
       let theta = 2 * pi * u;
           cosTheta = cos theta;
           sinTheta = sin theta;
           p = [cosPhi * sinTheta, sinPhi, cosPhi * cosTheta]
       in Inr (geom\<lparr>vertices := vertices geom @ [p],
                    vertex_normals := vertex_normals geom @ [p],
                    uvs := uvs geom @ [u, v]\<rparr>))"

definition ellipsoid_row :: "int \<Rightarrow> int \<Rightarrow> int \<Rightarrow> geometry \<Rightarrow> error + geometry" where
  "ellipsoid_row dx dy i geom =
     and_then (truediv (of_int i) (of_int dy)) (\<lambda>v.
       let phi = pi * v - pi / 2;
           cosPhi = cos phi;
           sinPhi = sin phi
       in for_loop (range1 (dx + 1)) (ellipsoid_point dx v cosPhi sinPhi) geom)"

definition ellipsoid :: "real \<Rightarrow> real \<Rightarrow> real \<Rightarrow> int \<Rightarrow> int \<Rightarrow> error + geometry" where
  "ellipsoid radius_x radius_y radius_z dx dy =
     and_then (for_loop (range1 (dy + 1)) (ellipsoid_row dx dy) (Geometry dx dy)) (\<lambda>geom.
       let geom = compute_faces geom;
           geom = make_triangle_edges geom;
           geom = edges_to_vertices geom
       in Inr (geom\<lparr>matrix := Some (scale_transform radius_x radius_y radius_z)\<rparr>))"

definition sphere :: "real \<Rightarrow> int \<Rightarrow> int \<Rightarrow> error + geometry" where
  "sphere radius dx dy = ellipsoid radius radius radius dx dy"

text \<open>
  A call of \<^verbatim>\<open>sphere\<close> that may leave arguments out: an argument that is not
  given (\<open>None\<close>) takes the default of the signature
  \<^verbatim>\<open>sphere(radius=50, detail_x=24, detail_y=16)\<close>.
\<close>

definition sphere_call :: "real option \<Rightarrow> int option \<Rightarrow> int option \<Rightarrow> error + geometry" where
  "sphere_call radius dx dy =
     sphere (case radius of None \<Rightarrow> 50 | Some r \<Rightarrow> r)
       (case dx of None \<Rightarrow> 24 | Some n \<Rightarrow> n)
       (case dy of None \<Rightarrow> 16 | Some n \<Rightarrow> n)"

subsection \<open>truncated\_cone, cylinder and cone\<close>

text \<open>
  The innermost loop body of the ring loop of \<^verbatim>\<open>truncated_cone\<close>: vertex
  \<open>ii\<close> of the ring at level \<open>yy\<close>. Here \<open>ndx\<close> and \<open>ndy\<close> are the
  variables \<^verbatim>\<open>detail_x\<close> and \<^verbatim>\<open>detail_y\<close> after their reassignment.
\<close>

definition ring_vertex ::
  "real \<Rightarrow> int \<Rightarrow> int \<Rightarrow> real \<Rightarrow> real \<Rightarrow> int \<Rightarrow> real \<Rightarrow> real \<Rightarrow> real \<Rightarrow> int \<Rightarrow>
   geometry \<Rightarrow> error + geometry" where
  "ring_vertex top_radius ndx ndy sin_slant cos_slant yy y v ring_radius ii geom =
     and_then (truediv (of_int ii) (of_int ndx)) (\<lambda>u.
       let ur = 2 * pi * u;
           sur = sin ur;
           cur = cos ur;
           geom = geom\<lparr>vertices := vertices geom @ [[sur * ring_radius, y, cur * ring_radius]]\<rparr>;
           normal = (if yy < 0 then [0, -1, 0]
                     else if yy > ndy \<and> top_radius \<noteq> 0 then [0, 1, 0]
                     else [sur * cos_slant, sin_slant, cur * cos_slant])
       in Inr (geom\<lparr>vertex_normals := vertex_normals geom @ [normal],
                    uvs := uvs geom @ [u, v]\<rparr>))"

text \<open>The body of the ring loop, for level \<open>yy\<close>.\<close>

definition ring ::
  "real \<Rightarrow> real \<Rightarrow> real \<Rightarrow> int \<Rightarrow> int \<Rightarrow> real \<Rightarrow> real \<Rightarrow> int \<Rightarrow> geometry \<Rightarrow> error + geometry" where
  "ring bottom_radius top_radius height ndx ndy sin_slant cos_slant yy geom =
     and_then (truediv (of_int yy) (of_int ndy)) (\<lambda>v.
       let y = height * v;
           ring_radius = bottom_radius + (top_radius - bottom_radius) * v;
           (y, v, ring_radius) =
              (if yy < 0 then (0, 0, bottom_radius)
               else if yy > ndy then (height, 1, top_radius)
               else (y, v, ring_radius));
           ring_radius = (if yy = -2 \<or> yy = ndy + 2 then 0 else ring_radius);
           y = y - height / 2
       in for_loop (range1 ndx)
            (ring_vertex top_radius ndx ndy sin_slant cos_slant yy y v ring_radius) geom)"

text \<open>The three face loops. Each returns the mesh with the triangles appended.\<close>

definition bottom_face :: "int \<Rightarrow> int \<Rightarrow> int \<Rightarrow> geometry \<Rightarrow> error + geometry" where
  "bottom_face ndx start_index jj geom =
     and_then (pymod (jj + 1) ndx) (\<lambda>nextjj.
       Inr (geom\<lparr>faces := faces geom @
              [[start_index + jj, start_index + ndx + nextjj, start_index + ndx + jj]]\<rparr>))"

definition side_faces :: "int \<Rightarrow> int \<Rightarrow> int \<Rightarrow> geometry \<Rightarrow> error + geometry" where
  "side_faces ndx start_index ii geom =
     and_then (pymod (ii + 1) ndx) (\<lambda>nextii.
       let geom = geom\<lparr>faces := faces geom @
                    [[start_index + ii, start_index + nextii, start_index + ndx + nextii]]\<rparr>
       in Inr (geom\<lparr>faces := faces geom @
                 [[start_index + ii, start_index + ndx + nextii, start_index + ndx + ii]]\<rparr>))"

text \<open>
  One pass of the loop \<^verbatim>\<open>for _ in range(detail_y)\<close>; the loop state is the mesh
  and the running \<^verbatim>\<open>start_index\<close>.
\<close>

definition side_segment :: "int \<Rightarrow> int \<Rightarrow> geometry \<times> int \<Rightarrow> error + geometry \<times> int" where
  "side_segment ndx k st =
     (case st of (geom, start_index) \<Rightarrow>
        and_then (for_loop (range1 ndx) (side_faces ndx start_index) geom) (\<lambda>geom.
          Inr (geom, start_index + ndx)))"

definition top_face :: "int \<Rightarrow> int \<Rightarrow> int \<Rightarrow> geometry \<Rightarrow> error + geometry" where
  "top_face ndx start_index ii geom =
     and_then (pymod (ii + 1) ndx) (\<lambda>nextii.
       Inr (geom\<lparr>faces := faces geom @
              [[start_index + ii, start_index + nextii, start_index + ndx]]\<rparr>))"

definition truncated_cone ::
  "real \<Rightarrow> real \<Rightarrow> real \<Rightarrow> int \<Rightarrow> int \<Rightarrow> bool \<Rightarrow> bool \<Rightarrow> error + geometry" where
  "truncated_cone bottom_radius top_radius height dx dy bottom_cap top_cap =
     (let geom = Geometry dx dy;
          bottom_radius = (if bottom_radius \<le> 0 then 1 else bottom_radius);
          top_radius = max top_radius 0;
          height = (if height \<le> 0 then bottom_radius else height);
          ndx = max dx 3;
          ndy = max dy 1;
          start = (if bottom_cap then -2 else 0);
          end_level = ndy + (if top_cap then 2 else 0);
          slant = atan2 (bottom_radius - top_radius) height;
          sin_slant = sin slant;
          cos_slant = cos slant
      in and_then
           (for_loop (range2 start (end_level + 1))
              (ring bottom_radius top_radius height ndx ndy sin_slant cos_slant) geom)
           (\<lambda>geom.
         let start_index = 0
         in and_then
              (if bottom_cap
               then and_then (for_loop (range1 ndx) (bottom_face ndx start_index) geom)
                      (\<lambda>geom. Inr (geom, start_index + ndx * 2))
               else Inr (geom, start_index))
              (\<lambda>st.
            and_then (for_loop (range1 ndy) (side_segment ndx) st) (\<lambda>(geom, start_index).
              if top_cap
              then (let start_index = start_index + ndx
                    in for_loop (range1 ndx) (top_face ndx start_index) geom)
              else Inr geom))))"

text \<open>
  \<^verbatim>\<open>cylinder(radius, height, detail_x, detail_y, top_cap, bottom_cap)\<close>: the
  source's parameter order, with the top cap before the bottom cap.
\<close>

definition cylinder :: "real \<Rightarrow> real \<Rightarrow> int \<Rightarrow> int \<Rightarrow> bool \<Rightarrow> bool \<Rightarrow> error + geometry" where
  "cylinder radius height dx dy top_cap bottom_cap =
     and_then (truncated_cone 1 1 1 dx dy bottom_cap top_cap) (\<lambda>geom.
       let geom = geom\<lparr>matrix := Some (scale_transform radius height radius)\<rparr>;
           geom = make_triangle_edges geom;
           geom = edges_to_vertices geom
       in Inr geom)"

definition cone :: "real \<Rightarrow> real \<Rightarrow> int \<Rightarrow> int \<Rightarrow> bool \<Rightarrow> error + geometry" where
  "cone radius height dx dy cap =
     and_then (truncated_cone 1 0 1 dx dy cap False) (\<lambda>geom.
       let geom = make_triangle_edges geom;
           geom = edges_to_vertices geom
       in Inr (geom\<lparr>matrix := Some (scale_transform radius height radius)\<rparr>))"

subsection \<open>torus\<close>

text \<open>
  In \<^verbatim>\<open>torus\<close> the inner loop appends vertices only. The normal and the UV
  pair are appended after it, once for each row, from the variables \<^verbatim>\<open>u\<close>,
  \<^verbatim>\<open>cosTheta\<close> and \<^verbatim>\<open>sinTheta\<close> that the inner loop assigned last. The
  loop state therefore carries these three locals: \<open>None\<close> while they are unbound.
\<close>

type_synonym torus_state = "geometry \<times> (real \<times> real \<times> real) option"

definition torus_point ::
  "int \<Rightarrow> real \<Rightarrow> real \<Rightarrow> real \<Rightarrow> int \<Rightarrow> torus_state \<Rightarrow> error + torus_state" where
  "torus_point dx tube_ratio r sinPhi j st =
     (case st of (geom, locals) \<Rightarrow>
        and_then (truediv (of_int j) (of_int dx)) (\<lambda>u.
          let theta = 2 * pi * u;
              cosTheta = cos theta;
              sinTheta = sin theta
          in Inr (geom\<lparr>vertices := vertices geom @
                       [[r * cosTheta, r * sinTheta, tube_ratio * sinPhi]]\<rparr>,
                  Some (u, cosTheta, sinTheta))))"

definition torus_row :: "int \<Rightarrow> int \<Rightarrow> real \<Rightarrow> int \<Rightarrow> torus_state \<Rightarrow> error + torus_state" where
  "torus_row dx dy tube_ratio i st =
     and_then (truediv (of_int i) (of_int dy)) (\<lambda>v.
       let phi = 2 * pi * v;
           cosPhi = cos phi;
           sinPhi = sin phi;
           r = 1 + tube_ratio * cosPhi
       in and_then (for_loop (range1 (dx + 1)) (torus_point dx tube_ratio r sinPhi) st)
            (\<lambda>(geom, locals).
              case locals of
                None \<Rightarrow> Inl UnboundLocalError
              | Some (u, cosTheta, sinTheta) \<Rightarrow>
                  let n = [cosPhi * cosTheta, cosPhi * sinTheta, sinPhi]
                  in Inr (geom\<lparr>vertex_normals := vertex_normals geom @ [n],
                               uvs := uvs geom @ [u, v]\<rparr>, locals)))"

definition torus :: "real \<Rightarrow> real \<Rightarrow> int \<Rightarrow> int \<Rightarrow> error + geometry" where
  "torus radius tube_radius dx dy =
     and_then (truediv tube_radius radius) (\<lambda>tube_ratio.
       and_then (for_loop (range1 (dy + 1)) (torus_row dx dy tube_ratio) (Geometry dx dy, None))
         (\<lambda>(geom, locals).
           let geom = compute_faces geom;
               geom = make_triangle_edges geom;
               geom = edges_to_vertices geom
           in Inr (geom\<lparr>matrix := Some (scale_transform radius radius radius)\<rparr>)))"

section \<open>Closed forms of the loops\<close>

text \<open>
  What the loops of \<^verbatim>\<open>truncated_cone\<close> append, written without loop state: the
  values of \<^verbatim>\<open>v\<close>, \<^verbatim>\<open>y\<close> and \<^verbatim>\<open>ring_radius\<close> at level \<open>yy\<close>,
  the position and the normal of vertex \<open>ii\<close> of that ring, and the triangles of the
  bottom fan, of one side segment and of the top fan. The lemmas below prove that the
  loops compute exactly these.
\<close>

definition ring_normal :: "real \<Rightarrow> int \<Rightarrow> int \<Rightarrow> real \<Rightarrow> real \<Rightarrow> int \<Rightarrow> int \<Rightarrow> real list" where
  "ring_normal top_radius ndx ndy sin_slant cos_slant yy ii =
     (if yy < 0 then [0, -1, 0]
      else if yy > ndy \<and> top_radius \<noteq> 0 then [0, 1, 0]
      else [sin (2 * pi * (of_int ii / of_int ndx)) * cos_slant, sin_slant,
            cos (2 * pi * (of_int ii / of_int ndx)) * cos_slant])"

definition level_v :: "int \<Rightarrow> int \<Rightarrow> real" where
  "level_v ndy yy = (if yy < 0 then 0 else if yy > ndy then 1 else of_int yy / of_int ndy)"

definition level_y :: "real \<Rightarrow> int \<Rightarrow> int \<Rightarrow> real" where
  "level_y height ndy yy =
     (if yy < 0 then 0 else if yy > ndy then height else height * (of_int yy / of_int ndy))
     - height / 2"

definition level_radius :: "real \<Rightarrow> real \<Rightarrow> int \<Rightarrow> int \<Rightarrow> real" where
  "level_radius bottom_radius top_radius ndy yy =
     (if yy = -2 \<or> yy = ndy + 2 then 0
      else if yy < 0 then bottom_radius
      else if yy > ndy then top_radius
      else bottom_radius + (top_radius - bottom_radius) * (of_int yy / of_int ndy))"

definition ring_position :: "real \<Rightarrow> real \<Rightarrow> real \<Rightarrow> int \<Rightarrow> int \<Rightarrow> int \<Rightarrow> int \<Rightarrow> real list" where
  "ring_position bottom_radius top_radius height ndx ndy yy ii =
     [sin (2 * pi * (of_int ii / of_int ndx)) * level_radius bottom_radius top_radius ndy yy,
      level_y height ndy yy,
      cos (2 * pi * (of_int ii / of_int ndx)) * level_radius bottom_radius top_radius ndy yy]"

definition fan_bottom :: "int \<Rightarrow> int \<Rightarrow> int list list" where
  "fan_bottom ndx s = map (\<lambda>jj. [s + jj, s + ndx + (jj + 1) mod ndx, s + ndx + jj]) (range1 ndx)"

definition quad_faces :: "int \<Rightarrow> int \<Rightarrow> int \<Rightarrow> int list list" where
  "quad_faces ndx s ii =
     [[s + ii, s + (ii + 1) mod ndx, s + ndx + (ii + 1) mod ndx],
      [s + ii, s + ndx + (ii + 1) mod ndx, s + ndx + ii]]"

definition segment_faces :: "int \<Rightarrow> int \<Rightarrow> int list list" where
  "segment_faces ndx s = concat (map (quad_faces ndx s) (range1 ndx))"

definition fan_top :: "int \<Rightarrow> int \<Rightarrow> int list list" where
  "fan_top ndx s = map (\<lambda>ii. [s + ii, s + (ii + 1) mod ndx, s + ndx]) (range1 ndx)"


text \<open>
  The sample of \<^verbatim>\<open>ellipsoid\<close> and of \<^verbatim>\<open>torus\<close> at row \<open>i\<close> and column
  \<open>j\<close> of the grid, and the values that the inner loop of \<^verbatim>\<open>torus\<close> leaves in
  \<^verbatim>\<open>u\<close>, \<^verbatim>\<open>cosTheta\<close> and \<^verbatim>\<open>sinTheta\<close> after column \<open>j\<close>.
\<close>

definition ellipsoid_position :: "int \<Rightarrow> int \<Rightarrow> int \<Rightarrow> int \<Rightarrow> real list" where
  "ellipsoid_position dx dy i j =
     [cos (pi * (of_int i / of_int dy) - pi / 2) * sin (2 * pi * (of_int j / of_int dx)),
      sin (pi * (of_int i / of_int dy) - pi / 2),
      cos (pi * (of_int i / of_int dy) - pi / 2) * cos (2 * pi * (of_int j / of_int dx))]"

definition torus_position :: "int \<Rightarrow> int \<Rightarrow> real \<Rightarrow> int \<Rightarrow> int \<Rightarrow> real list" where
  "torus_position dx dy tube_ratio i j =
     [(1 + tube_ratio * cos (2 * pi * (of_int i / of_int dy))) * cos (2 * pi * (of_int j / of_int dx)),
      (1 + tube_ratio * cos (2 * pi * (of_int i / of_int dy))) * sin (2 * pi * (of_int j / of_int dx)),
      tube_ratio * sin (2 * pi * (of_int i / of_int dy))]"

definition torus_locals :: "int \<Rightarrow> int \<Rightarrow> real \<times> real \<times> real" where
  "torus_locals dx j =
     (of_int j / of_int dx, cos (2 * pi * (of_int j / of_int dx)),
      sin (2 * pi * (of_int j / of_int dx)))"


text \<open>
  The triangles of a mesh with a corner among the vertices from index \<open>first\<close> on;
  with \<open>first\<close> the first index of the last ring, the triangles that reference that
  ring.
\<close>

definition faces_touching :: "int \<Rightarrow> geometry \<Rightarrow> int list list" where
  "faces_touching first geom = filter (list_ex (\<lambda>i. first \<le> i)) (faces geom)"

text \<open>
  The number of corners of a triangle among the vertices from index \<open>first\<close> on, and
  the triangles of a mesh with exactly \<open>k\<close> such corners.
\<close>

definition corners_from :: "int \<Rightarrow> int list \<Rightarrow> nat" where
  "corners_from first f = length (filter (\<lambda>i. first \<le> i) f)"

definition faces_with_corners :: "int \<Rightarrow> nat \<Rightarrow> geometry \<Rightarrow> int list list" where
  "faces_with_corners first k geom = filter (\<lambda>f. corners_from first f = k) (faces geom)"



text \<open>
  Ring coordinates. Every loop of \<^verbatim>\<open>truncated_cone\<close> emits \<open>n\<close> vertices for a
  ring, so the vertex at position \<open>p\<close> of the \<open>r\<close>-th emitted ring has index
  \<open>r n + p\<close>; \<open>nxt n p\<close> is the source's \<^verbatim>\<open>(p + 1) % n\<close>. An undirected edge
  between two such vertices is written as the tuple \<open>(r, p, r', q)\<close>.
\<close>

definition idx :: "int \<Rightarrow> int \<Rightarrow> int \<Rightarrow> int" where
  "idx n r p = r * n + p"

definition nxt :: "int \<Rightarrow> int \<Rightarrow> int" where
  "nxt n p = (p + 1) mod n"

definition ring_edge :: "int \<Rightarrow> int \<times> int \<times> int \<times> int \<Rightarrow> int list" where
  "ring_edge n e = (case e of (r, p, r', q) \<Rightarrow> [idx n r p, idx n r' q])"

text \<open>
  The set of undirected edges of a list of triangles, and the number of triangles of
  a mesh that have a given undirected edge as a side.
\<close>

definition edge_set :: "int list list \<Rightarrow> int list set" where
  "edge_set fs = set (map undirected (concat (map triangle_sides fs)))"

definition triangles_at_edge :: "geometry \<Rightarrow> int list \<Rightarrow> nat" where
  "triangles_at_edge geom e =
     length (filter (\<lambda>f. e \<in> set (map undirected (triangle_sides f))) (faces geom))"

text \<open>
  The four kinds of edges of a capped cylinder in ring coordinates, for rings
  \<open>r \<in> R\<close>: the diagonal and the vertical of each quad between ring \<open>r\<close> and ring
  \<open>r + 1\<close>, the edges inside ring \<open>r\<close>, and the spokes from ring \<open>r\<close> to the first
  vertex of ring \<open>r + 1\<close> (the one apex that the top fan uses).
\<close>

definition X_diag :: "int set \<Rightarrow> int \<Rightarrow> (int \<times> int \<times> int \<times> int) set" where
  "X_diag R n = (\<lambda>(r, p). (r, p, r + 1, nxt n p)) ` (R \<times> {0..<n})"

definition X_vert :: "int set \<Rightarrow> int \<Rightarrow> (int \<times> int \<times> int \<times> int) set" where
  "X_vert R n = (\<lambda>(r, p). (r, p, r + 1, p)) ` (R \<times> {0..<n})"

definition X_ring :: "int set \<Rightarrow> int \<Rightarrow> (int \<times> int \<times> int \<times> int) set" where
  "X_ring R n = (\<lambda>(r, p). (r, min p (nxt n p), r, max p (nxt n p))) ` (R \<times> {0..<n})"

definition X_spoke :: "int \<Rightarrow> int \<Rightarrow> (int \<times> int \<times> int \<times> int) set" where
  "X_spoke r n = (\<lambda>p. (r, p, r + 1, 0)) ` {0..<n}"

definition cylinder_edges :: "int \<Rightarrow> int \<Rightarrow> (int \<times> int \<times> int \<times> int) set" where
  "cylinder_edges n m =
     X_diag ({0} \<union> {2..m + 1}) n \<union> X_vert ({0} \<union> {2..m + 1}) n \<union>
     X_ring {1..m + 3} n \<union> X_spoke (m + 3) n"


text \<open>
  The directed sides of a list of triangles, and the kinds of directed sides of a
  capped cylinder that are not among the kinds above: the vertical and the diagonal
  of a quad run downwards, a spoke run downwards, and an edge inside a ring run
  forwards or backwards.
\<close>

definition side_set :: "int list list \<Rightarrow> int list set" where
  "side_set fs = set (concat (map triangle_sides fs))"

definition Y_down_vert :: "int set \<Rightarrow> int \<Rightarrow> (int \<times> int \<times> int \<times> int) set" where
  "Y_down_vert R n = (\<lambda>(r, p). (r + 1, p, r, p)) ` (R \<times> {0..<n})"

definition Y_down_diag :: "int set \<Rightarrow> int \<Rightarrow> (int \<times> int \<times> int \<times> int) set" where
  "Y_down_diag R n = (\<lambda>(r, p). (r + 1, nxt n p, r, p)) ` (R \<times> {0..<n})"

definition Y_down_spoke :: "int \<Rightarrow> int \<Rightarrow> (int \<times> int \<times> int \<times> int) set" where
  "Y_down_spoke r n = (\<lambda>p. (r + 1, 0, r, p)) ` {0..<n}"

definition Y_fwd :: "int set \<Rightarrow> int \<Rightarrow> (int \<times> int \<times> int \<times> int) set" where
  "Y_fwd R n = (\<lambda>(r, p). (r, p, r, nxt n p)) ` (R \<times> {0..<n})"

definition Y_back :: "int set \<Rightarrow> int \<Rightarrow> (int \<times> int \<times> int \<times> int) set" where
  "Y_back R n = (\<lambda>(r, p). (r, nxt n p, r, p)) ` (R \<times> {0..<n})"

definition cylinder_sides :: "int \<Rightarrow> int \<Rightarrow> (int \<times> int \<times> int \<times> int) set" where
  "cylinder_sides n m =
     X_diag ({0} \<union> {2..m + 1}) n \<union> X_vert {2..m + 1} n \<union> X_spoke (m + 3) n \<union>
     Y_down_vert ({0} \<union> {2..m + 1}) n \<union> Y_down_diag {2..m + 1} n \<union>
     Y_down_spoke (m + 3) n \<union>
     Y_fwd ({2..m + 1} \<union> {m + 3}) n \<union> Y_back ({1} \<union> {3..m + 2}) n"

section \<open>Exceptions and loops\<close>

lemma and_then_Inr [simp]: "and_then (Inr x) k = k x"
  by (simp add: and_then_def)
lemma and_then_Inl [simp]: "and_then (Inl e) k = Inl e"
  by (simp add: and_then_def)

lemma truediv_Inr: "b \<noteq> 0 \<Longrightarrow> truediv a b = Inr (a / b)"
  by (simp add: truediv_def)
lemma pymod_Inr: "b \<noteq> 0 \<Longrightarrow> pymod a b = Inr (a mod b)"
  by (simp add: pymod_def)

lemma length_concat_rows:
  assumes "\<And>r. r \<in> set rows \<Longrightarrow> length r = n"
  shows "length (concat rows) = length rows * n"
  using assms by (induction rows) simp_all

lemma length_concat_map:
  assumes "\<And>x. x \<in> set xs \<Longrightarrow> length (f x) = n"
  shows "length (concat (map f xs)) = length xs * n"
  using assms by (induction xs) simp_all

lemma nth_concat_rows:
  assumes "\<And>r. r \<in> set rows \<Longrightarrow> length r = n" and "i < length rows" and "j < n"
  shows "concat rows ! (i * n + j) = rows ! i ! j"
  using assms
proof (induction rows arbitrary: i)
  case Nil
  then show ?case by simp
next
  case (Cons r rows)
  have len: "length r = n" using Cons.prems(1) by simp
  show ?case
  proof (cases i)
    case 0
    then show ?thesis using len Cons.prems(3) by (simp add: nth_append)
  next
    case (Suc k)
    have "concat rows ! (k * n + j) = rows ! k ! j"
      using Cons.prems Suc by (intro Cons.IH) simp_all
    then show ?thesis using len Suc by (simp add: nth_append)
  qed
qed

lemma length_range1: "length (range1 n) = nat n"
  by (simp add: range1_def)

lemma nth_range1: "k < nat n \<Longrightarrow> range1 n ! k = int k"
  by (simp add: range1_def)


lemma last_range1: "0 < n \<Longrightarrow> last (range1 n) = n - 1"
  by (simp add: range1_def upto_rec2 [of 0 "n - 1"])

lemma range1_Nil: "range1 n = [] \<longleftrightarrow> n \<le> 0"
  by (auto simp: range1_def)

lemma filter_concat_map_Nil:
  assumes "\<And>x. x \<in> set xs \<Longrightarrow> filter P (f x) = []"
  shows "filter P (concat (map f xs)) = []"
  using assms by (induction xs) simp_all

lemma upto_0_2: "[0..2] = [0, 1, 2]"
  by (simp add: upto_rec1)

lemma set_range1: "set (range1 n) = {0..<n}"
  by (auto simp: range1_def)

lemma next_index:
  fixes n :: int
  assumes "0 < n"
  shows "\<exists>nx. (ii + 1) mod n = nx \<and> 0 \<le> nx \<and> nx < n"
  using assms by simp

text \<open>The derivation helpers change only the attribute they derive.\<close>

lemma helper_frame:
  "vertices (edges_to_vertices g) = vertices g"
  "vertex_normals (edges_to_vertices g) = vertex_normals g"
  "uvs (edges_to_vertices g) = uvs g"
  "faces (edges_to_vertices g) = faces g"
  "vertices (make_triangle_edges g) = vertices g"
  "vertex_normals (make_triangle_edges g) = vertex_normals g"
  "uvs (make_triangle_edges g) = uvs g"
  "faces (make_triangle_edges g) = faces g"
  "vertices (compute_faces g) = vertices g"
  "vertex_normals (compute_faces g) = vertex_normals g"
  "uvs (compute_faces g) = uvs g"
  by (simp_all add: edges_to_vertices_def make_triangle_edges_def compute_faces_def Let_def)

section \<open>The loops of truncated\_cone\<close>

lemma ring_vertex_loop:
  assumes "ndx \<noteq> 0"
  shows "for_loop xs (ring_vertex top_radius ndx ndy sin_slant cos_slant yy y v ring_radius) geom =
    Inr (geom\<lparr>vertices := vertices geom @
                 map (\<lambda>ii. [sin (2 * pi * (of_int ii / of_int ndx)) * ring_radius, y,
                            cos (2 * pi * (of_int ii / of_int ndx)) * ring_radius]) xs,
              vertex_normals := vertex_normals geom @
                 map (ring_normal top_radius ndx ndy sin_slant cos_slant yy) xs,
              uvs := uvs geom @ concat (map (\<lambda>ii. [of_int ii / of_int ndx, v]) xs)\<rparr>)"
  using assms
  by (induction xs arbitrary: geom)
     (simp_all add: ring_vertex_def truediv_Inr Let_def ring_normal_def)

lemma ring_step:
  assumes "ndx \<noteq> 0" "ndy \<noteq> 0"
  shows "ring bottom_radius top_radius height ndx ndy sin_slant cos_slant yy geom =
    Inr (geom\<lparr>vertices := vertices geom @
                 map (ring_position bottom_radius top_radius height ndx ndy yy) (range1 ndx),
              vertex_normals := vertex_normals geom @
                 map (ring_normal top_radius ndx ndy sin_slant cos_slant yy) (range1 ndx),
              uvs := uvs geom @
                 concat (map (\<lambda>ii. [of_int ii / of_int ndx, level_v ndy yy]) (range1 ndx))\<rparr>)"
  using assms
  by (simp add: ring_def truediv_Inr Let_def ring_vertex_loop level_v_def level_y_def
        level_radius_def ring_position_def)

lemma ring_loop:
  assumes "ndx \<noteq> 0" "ndy \<noteq> 0"
  shows "for_loop ys (ring bottom_radius top_radius height ndx ndy sin_slant cos_slant) geom =
    Inr (geom\<lparr>vertices := vertices geom @
                 concat (map (\<lambda>yy. map (ring_position bottom_radius top_radius height ndx ndy yy)
                                 (range1 ndx)) ys),
              vertex_normals := vertex_normals geom @
                 concat (map (\<lambda>yy. map (ring_normal top_radius ndx ndy sin_slant cos_slant yy)
                                 (range1 ndx)) ys),
              uvs := uvs geom @
                 concat (map (\<lambda>yy. concat (map (\<lambda>ii. [of_int ii / of_int ndx, level_v ndy yy])
                                 (range1 ndx))) ys)\<rparr>)"
  using assms
  by (induction ys arbitrary: geom) (simp_all add: ring_step)

lemma bottom_face_loop:
  assumes "ndx \<noteq> 0"
  shows "for_loop xs (bottom_face ndx s) geom =
    Inr (geom\<lparr>faces := faces geom @
           map (\<lambda>jj. [s + jj, s + ndx + (jj + 1) mod ndx, s + ndx + jj]) xs\<rparr>)"
  using assms
  by (induction xs arbitrary: geom) (simp_all add: bottom_face_def pymod_Inr)

lemma side_faces_loop:
  assumes "ndx \<noteq> 0"
  shows "for_loop xs (side_faces ndx s) geom =
    Inr (geom\<lparr>faces := faces geom @ concat (map (quad_faces ndx s) xs)\<rparr>)"
  using assms
  by (induction xs arbitrary: geom) (simp_all add: side_faces_def pymod_Inr quad_faces_def)

lemma top_face_loop:
  assumes "ndx \<noteq> 0"
  shows "for_loop xs (top_face ndx s) geom =
    Inr (geom\<lparr>faces := faces geom @
           map (\<lambda>ii. [s + ii, s + (ii + 1) mod ndx, s + ndx]) xs\<rparr>)"
  using assms
  by (induction xs arbitrary: geom) (simp_all add: top_face_def pymod_Inr)

lemma side_segment_step:
  assumes "ndx \<noteq> 0"
  shows "side_segment ndx k (geom, s) =
    Inr (geom\<lparr>faces := faces geom @ segment_faces ndx s\<rparr>, s + ndx)"
  using assms by (simp add: side_segment_def side_faces_loop segment_faces_def)

lemma side_segment_loop:
  assumes "ndx \<noteq> 0"
  shows "for_loop ks (side_segment ndx) (geom, s) =
    Inr (geom\<lparr>faces := faces geom @
           concat (map (\<lambda>k. segment_faces ndx (s + int k * ndx)) [0..<length ks])\<rparr>,
         s + int (length ks) * ndx)"
proof (induction ks arbitrary: geom s)
  case Nil
  then show ?case by simp
next
  case (Cons k ks)
  have shift: "map (\<lambda>k. segment_faces ndx (s + ndx + int k * ndx)) [0..<length ks] =
               map (\<lambda>k. segment_faces ndx (s + int k * ndx)) [Suc 0..<Suc (length ks)]"
    by (simp add: map_Suc_upt [symmetric] algebra_simps del: upt_Suc)
  have ar: "s + ndx + int (length ks) * ndx = s + int (length (k # ks)) * ndx"
    by (simp add: algebra_simps)
  have "for_loop (k # ks) (side_segment ndx) (geom, s) =
        for_loop ks (side_segment ndx) (geom\<lparr>faces := faces geom @ segment_faces ndx s\<rparr>, s + ndx)"
    by (simp add: side_segment_step [OF assms])
  also have "\<dots> = Inr (geom\<lparr>faces := faces geom @ segment_faces ndx s @
           concat (map (\<lambda>k. segment_faces ndx (s + ndx + int k * ndx)) [0..<length ks])\<rparr>,
         s + ndx + int (length ks) * ndx)"
    by (simp add: Cons.IH)
  also have "\<dots> = Inr (geom\<lparr>faces := faces geom @
           concat (map (\<lambda>k. segment_faces ndx (s + int k * ndx)) [0..<length (k # ks)])\<rparr>,
         s + int (length (k # ks)) * ndx)"
    unfolding shift ar by (simp add: upt_rec [of 0 "Suc (length ks)"] del: upt_Suc)
  finally show ?case .
qed


lemma truncated_cone_closed:
  fixes b t h :: real and dx dy :: int and bc tc :: bool
  defines "B \<equiv> (if b \<le> 0 then 1 else b)"
    and "T \<equiv> max t 0"
    and "n \<equiv> max dx 3"
    and "m \<equiv> max dy 1"
  defines "H \<equiv> (if h \<le> 0 then B else h)"
    and "levels \<equiv> [(if bc then -2 else 0)..m + (if tc then 2 else 0)]"
    and "base \<equiv> (if bc then n * 2 else 0)"
  defines "slant \<equiv> atan2 (B - T) H"
  shows "truncated_cone b t h dx dy bc tc =
    Inr ((Geometry dx dy)
      \<lparr>vertices := concat (map (\<lambda>yy. map (ring_position B T H n m yy) (range1 n)) levels),
       vertex_normals :=
         concat (map (\<lambda>yy. map (ring_normal T n m (sin slant) (cos slant) yy) (range1 n)) levels),
       uvs := concat (map (\<lambda>yy. concat (map (\<lambda>ii. [of_int ii / of_int n, level_v m yy])
                       (range1 n))) levels),
       faces := (if bc then fan_bottom n 0 else []) @
                concat (map (\<lambda>k. segment_faces n (base + int k * n)) [0..<nat m]) @
                (if tc then fan_top n (base + m * n + n) else [])\<rparr>)"
proof -
  have nz: "n \<noteq> 0" "m \<noteq> 0" by (simp_all add: n_def m_def)
  have len: "length (range1 m) = nat m" by (simp add: range1_def)
  have pos: "0 < n" "0 < m" by (simp_all add: n_def m_def)
  show ?thesis
    using pos
    unfolding truncated_cone_def Let_def
    unfolding B_def [symmetric] T_def [symmetric] n_def [symmetric] m_def [symmetric]
    unfolding H_def [symmetric]
    unfolding slant_def [symmetric]
    by (simp add: ring_loop [OF nz] bottom_face_loop [OF nz(1)] side_segment_loop [OF nz(1)]
          top_face_loop [OF nz(1)] len range2_def levels_def base_def Geometry_def
          fan_bottom_def fan_top_def)
qed



section \<open>box\<close>

lemma upt_0_6: "[0..<6] = [0, 1, 2, 3, 4, 5]"
  by (simp add: upt_rec)

lemma upt_0_4: "[0..<4] = [0, 1, 2, 3]"
  by (simp add: upt_rec)

lemmas box_unfold = box_def box_face_def box_corner_def cube_indices_def compute_normals_def
  make_triangle_edges_def Geometry_def Let_def upt_0_6 upt_0_4

lemma box_vertices:
  "vertices (box width height depth dx dy) =
     [[- (1 / 2), - (1 / 2), - (1 / 2)], [- (1 / 2), - (1 / 2), 1 / 2],
      [- (1 / 2), 1 / 2, - (1 / 2)], [- (1 / 2), 1 / 2, 1 / 2],
      [1 / 2, - (1 / 2), - (1 / 2)], [1 / 2, 1 / 2, - (1 / 2)],
      [1 / 2, - (1 / 2), 1 / 2], [1 / 2, 1 / 2, 1 / 2],
      [- (1 / 2), - (1 / 2), - (1 / 2)], [1 / 2, - (1 / 2), - (1 / 2)],
      [- (1 / 2), - (1 / 2), 1 / 2], [1 / 2, - (1 / 2), 1 / 2],
      [- (1 / 2), 1 / 2, - (1 / 2)], [- (1 / 2), 1 / 2, 1 / 2],
      [1 / 2, 1 / 2, - (1 / 2)], [1 / 2, 1 / 2, 1 / 2],
      [- (1 / 2), - (1 / 2), - (1 / 2)], [- (1 / 2), 1 / 2, - (1 / 2)],
      [1 / 2, - (1 / 2), - (1 / 2)], [1 / 2, 1 / 2, - (1 / 2)],
      [- (1 / 2), - (1 / 2), 1 / 2], [1 / 2, - (1 / 2), 1 / 2],
      [- (1 / 2), 1 / 2, 1 / 2], [1 / 2, 1 / 2, 1 / 2]]"
  by (simp add: box_unfold)

lemma box_uvs:
  "uvs (box width height depth dx dy) =
     [0, 0, 1, 0, 0, 1, 1, 1, 0, 0, 1, 0, 0, 1, 1, 1, 0, 0, 1, 0, 0, 1, 1, 1,
      0, 0, 1, 0, 0, 1, 1, 1, 0, 0, 1, 0, 0, 1, 1, 1, 0, 0, 1, 0, 0, 1, 1, 1]"
  by (simp add: box_unfold)

lemma box_faces:
  "faces (box width height depth dx dy) =
     [[0, 1, 2], [2, 1, 3], [4, 5, 6], [6, 5, 7], [8, 9, 10], [10, 9, 11],
      [12, 13, 14], [14, 13, 15], [16, 17, 18], [18, 17, 19], [20, 21, 22],
      [22, 21, 23]]"
  by (simp add: box_unfold)

lemma box_strokes:
  "stroke_indices (box width height depth dx dy) = box_stroke_indices"
  by (simp add: box_unfold)

text \<open>
  Claim C6. For every width, height and depth (and every pair of detail values),
  \<^verbatim>\<open>box\<close> returns a mesh with exactly 24 vertices, 24 UV pairs, 12 triangular
  faces and the fixed list of 12 stroke index pairs; none of them depends on the
  arguments.
\<close>

theorem box_fixed_shape:
  "length (vertices (box width height depth dx dy)) = 24 \<and>
   uv_count (box width height depth dx dy) = 24 \<and>
   length (faces (box width height depth dx dy)) = 12 \<and>
   stroke_indices (box width height depth dx dy) =
     [[0, 1], [1, 3], [3, 2], [6, 7], [8, 9], [9, 11], [14, 15], [16, 17], [17, 19],
      [18, 19], [20, 21], [22, 23]] \<and>
   length (stroke_indices (box width height depth dx dy)) = 12"
  by (simp add: box_vertices box_uvs box_faces box_strokes uv_count_def box_stroke_indices_def)

theorem box_fixed_shape_witness:
  "length (vertices (box 10 20 30 1 1)) = 24 \<and> uv_count (box 10 20 30 1 1) = 24 \<and>
   length (faces (box 10 20 30 1 1)) = 12 \<and>
   length (stroke_indices (box 10 20 30 1 1)) = 12"
  using box_fixed_shape [of 10 20 30 1 1] by simp

text \<open>
  Claim C10. Two calls of \<^verbatim>\<open>box\<close> with the same width, height and depth and any
  two pairs of detail values produce the same vertices, UVs, faces and stroke indices.
\<close>

theorem box_ignores_detail:
  "vertices (box width height depth dx1 dy1) = vertices (box width height depth dx2 dy2) \<and>
   uvs (box width height depth dx1 dy1) = uvs (box width height depth dx2 dy2) \<and>
   faces (box width height depth dx1 dy1) = faces (box width height depth dx2 dy2) \<and>
   stroke_indices (box width height depth dx1 dy1) =
     stroke_indices (box width height depth dx2 dy2)"
  by (simp add: box_vertices box_uvs box_faces box_strokes)

theorem box_ignores_detail_witness:
  "vertices (box 10 20 30 1 1) = vertices (box 10 20 30 7 5) \<and>
   faces (box 10 20 30 1 1) = faces (box 10 20 30 7 5)"
  using box_ignores_detail [of 10 20 30 1 1 7 5] by simp

section \<open>truncated\_cone\<close>

lemma truncated_cone_vertex:
  fixes b t h :: real and dx dy :: int and bc tc :: bool
  defines "B \<equiv> (if b \<le> 0 then 1 else b)"
    and "T \<equiv> max t 0"
    and "n \<equiv> max dx 3"
    and "m \<equiv> max dy 1"
  defines "H \<equiv> (if h \<le> 0 then B else h)"
    and "lo \<equiv> (if bc then -2 else 0 :: int)"
    and "hi \<equiv> m + (if tc then 2 else 0)"
  assumes g: "truncated_cone b t h dx dy bc tc = Inr g"
    and yy: "lo \<le> yy" "yy \<le> hi" and ii: "0 \<le> ii" "ii < n"
  shows "vertices g ! nat ((yy - lo) * n + ii) = ring_position B T H n m yy ii"
proof -
  let ?rows = "map (\<lambda>yy. map (ring_position B T H n m yy) (range1 n)) [lo..hi]"
  have v: "vertices g = concat ?rows"
    using g unfolding truncated_cone_closed B_def T_def n_def m_def H_def lo_def hi_def
    by auto
  have rows: "\<And>r. r \<in> set ?rows \<Longrightarrow> length r = nat n"
    by (auto simp: length_range1)
  have i: "nat (yy - lo) < length ?rows" using yy by simp
  have j: "nat ii < nat n" using ii by simp
  have idx: "nat ((yy - lo) * n + ii) = nat (yy - lo) * nat n + nat ii"
    using yy ii by (simp add: nat_add_distrib nat_mult_distrib)
  have "concat ?rows ! (nat (yy - lo) * nat n + nat ii) = ?rows ! nat (yy - lo) ! nat ii"
    by (rule nth_concat_rows [OF rows i j])
  also have "\<dots> = ring_position B T H n m yy ii"
    using yy ii by (simp add: nth_range1 length_range1)
  finally show ?thesis by (simp add: v idx)
qed

lemma truncated_cone_vertex_count:
  assumes "truncated_cone b t h dx dy bc tc = Inr g"
  shows "length (vertices g) =
         nat (max dy 1 + 1 + (if bc then 2 else 0) + (if tc then 2 else 0)) * nat (max dx 3)"
proof -
  let ?rows = "map (\<lambda>yy. map (ring_position (if b \<le> 0 then 1 else b) (max t 0)
      (if h \<le> 0 then if b \<le> 0 then 1 else b else h) (max dx 3) (max dy 1) yy)
      (range1 (max dx 3))) [(if bc then -2 else 0)..max dy 1 + (if tc then 2 else 0)]"
  have v: "vertices g = concat ?rows"
    using assms unfolding truncated_cone_closed by auto
  have "length (concat ?rows) = length ?rows * nat (max dx 3)"
    by (rule length_concat_rows) (auto simp: length_range1)
  then show ?thesis unfolding v by (simp add: algebra_simps)
qed


lemma truncated_cone_face_count:
  assumes "truncated_cone b t h dx dy bc tc = Inr g"
  shows "length (faces g) =
         ((if bc then 1 else 0) + 2 * nat (max dy 1) + (if tc then 1 else 0)) * nat (max dx 3)"
proof -
  have seg: "length (segment_faces (max dx 3) s) = 2 * nat (max dx 3)" for s
    unfolding segment_faces_def
    by (subst length_concat_map [where n = 2]) (simp_all add: quad_faces_def length_range1)
  have segs: "length (concat (map (\<lambda>k. segment_faces (max dx 3) (f k)) ks)) =
              length ks * (2 * nat (max dx 3))" for f and ks :: "nat list"
    by (rule length_concat_map) (simp add: seg)
  show ?thesis
    using assms unfolding truncated_cone_closed
    by (auto simp: segs fan_bottom_def fan_top_def length_range1 algebra_simps)
qed

lemma truncated_cone_detail:
  assumes "truncated_cone b t h dx dy bc tc = Inr g"
  shows "detail_x g = dx \<and> detail_y g = dy"
  using assms unfolding truncated_cone_closed by (auto simp: Geometry_def)

lemma truncated_cone_total:
  "\<exists>g. truncated_cone b t h dx dy bc tc = Inr g"
  by (simp add: truncated_cone_closed)

lemma truncated_cone_sanitized_call:
  fixes b t h :: real and dx dy :: int and bc tc :: bool
  defines "B \<equiv> (if b \<le> 0 then 1 else b)"
    and "T \<equiv> max t 0"
    and "n \<equiv> max dx 3"
    and "m \<equiv> max dy 1"
  defines "H \<equiv> (if h \<le> 0 then B else h)"
  assumes g: "truncated_cone b t h dx dy bc tc = Inr g"
  shows "truncated_cone B T H n m bc tc = Inr (g\<lparr>detail_x := n, detail_y := m\<rparr>)"
proof -
  have idem: "(if B \<le> 0 then 1 else B) = B" "max T 0 = T" "max n 3 = n" "max m 1 = m"
    "(if H \<le> 0 then B else H) = H"
    by (auto simp: B_def T_def n_def m_def H_def)
  have "g = (Geometry dx dy)
      \<lparr>vertices := concat (map (\<lambda>yy. map (ring_position B T H n m yy) (range1 n))
                      [(if bc then -2 else 0)..m + (if tc then 2 else 0)]),
       vertex_normals :=
         concat (map (\<lambda>yy. map (ring_normal T n m (sin (atan2 (B - T) H))
                                  (cos (atan2 (B - T) H)) yy) (range1 n))
                      [(if bc then -2 else 0)..m + (if tc then 2 else 0)]),
       uvs := concat (map (\<lambda>yy. concat (map (\<lambda>ii. [of_int ii / of_int n, level_v m yy])
                       (range1 n))) [(if bc then -2 else 0)..m + (if tc then 2 else 0)]),
       faces := (if bc then fan_bottom n 0 else []) @
                concat (map (\<lambda>k. segment_faces n ((if bc then n * 2 else 0) + int k * n))
                         [0..<nat m]) @
                (if tc then fan_top n ((if bc then n * 2 else 0) + m * n + n) else [])\<rparr>"
    using g unfolding truncated_cone_closed B_def T_def n_def m_def H_def by simp
  then show ?thesis
    unfolding truncated_cone_closed [of B T H n m bc tc] idem
    by (simp add: Geometry_def)
qed

lemma truncated_cone_normal:
  fixes b t h :: real and dx dy :: int and bc tc :: bool
  defines "B \<equiv> (if b \<le> 0 then 1 else b)"
    and "T \<equiv> max t 0"
    and "n \<equiv> max dx 3"
    and "m \<equiv> max dy 1"
  defines "H \<equiv> (if h \<le> 0 then B else h)"
    and "lo \<equiv> (if bc then -2 else 0 :: int)"
    and "hi \<equiv> m + (if tc then 2 else 0)"
  assumes g: "truncated_cone b t h dx dy bc tc = Inr g"
    and yy: "lo \<le> yy" "yy \<le> hi" and ii: "0 \<le> ii" "ii < n"
  shows "vertex_normals g ! nat ((yy - lo) * n + ii) =
         ring_normal T n m (sin (atan2 (B - T) H)) (cos (atan2 (B - T) H)) yy ii"
proof -
  let ?rows = "map (\<lambda>yy. map (ring_normal T n m (sin (atan2 (B - T) H))
                              (cos (atan2 (B - T) H)) yy) (range1 n)) [lo..hi]"
  have v: "vertex_normals g = concat ?rows"
    using g unfolding truncated_cone_closed B_def T_def n_def m_def H_def lo_def hi_def
    by auto
  have rows: "\<And>r. r \<in> set ?rows \<Longrightarrow> length r = nat n"
    by (auto simp: length_range1)
  have i: "nat (yy - lo) < length ?rows" using yy by simp
  have j: "nat ii < nat n" using ii by simp
  have idx: "nat ((yy - lo) * n + ii) = nat (yy - lo) * nat n + nat ii"
    using yy ii by (simp add: nat_add_distrib nat_mult_distrib)
  have "concat ?rows ! (nat (yy - lo) * nat n + nat ii) = ?rows ! nat (yy - lo) ! nat ii"
    by (rule nth_concat_rows [OF rows i j])
  also have "\<dots> = ring_normal T n m (sin (atan2 (B - T) H)) (cos (atan2 (B - T) H)) yy ii"
    using yy ii by (simp add: nth_range1 length_range1)
  finally show ?thesis by (simp add: v idx)
qed

text \<open>
  Claim C4. For every input (real radii and height, integer detail counts)
  \<^verbatim>\<open>truncated_cone\<close> raises no exception and returns the mesh of its sanitized
  parameters: the bottom radius \<open>B\<close> is 1 when the argument is not positive, the top
  radius \<open>T\<close> is the argument clamped at 0 from below, the height \<open>H\<close> is \<open>B\<close> when
  the argument is not positive, and the ring size \<open>n\<close> and the number of side segments
  \<open>m\<close> are the detail arguments raised to at least 3 and 1. The returned mesh is the
  mesh that the call with \<open>B\<close>, \<open>T\<close>, \<open>H\<close>, \<open>n\<close>, \<open>m\<close> in place of the arguments
  returns (vertices, normals, UVs and faces; only the stored detail counts, which are
  the raw arguments, differ). It has \<open>n\<close> vertices for each of its levels and \<open>n\<close> or
  \<open>2n\<close> triangles for each cap or segment; the first vertex of the bottom ring of the
  side is \<open>(0, -H/2, B)\<close> with the slant normal \<open>(0, sin s, cos s)\<close>,
  \<open>s = arctan ((B - T) / H)\<close>, and the first vertex of its top ring is \<open>(0, H/2, T)\<close>.
\<close>

theorem truncated_cone_sanitizes:
  fixes b t h :: real and dx dy :: int and bc tc :: bool
  defines "B \<equiv> (if b \<le> 0 then 1 else b)"
    and "T \<equiv> max t 0"
    and "n \<equiv> max dx 3"
    and "m \<equiv> max dy 1"
  defines "H \<equiv> (if h \<le> 0 then B else h)"
    and "base \<equiv> (if bc then 2 * n else 0)"
  shows "\<exists>g. truncated_cone b t h dx dy bc tc = Inr g \<and>
           truncated_cone B T H n m bc tc = Inr (g\<lparr>detail_x := n, detail_y := m\<rparr>) \<and>
           0 < B \<and> 0 \<le> T \<and> 0 < H \<and> 3 \<le> n \<and> 1 \<le> m \<and>
           length (vertices g) =
             nat (m + 1 + (if bc then 2 else 0) + (if tc then 2 else 0)) * nat n \<and>
           length (faces g) =
             ((if bc then 1 else 0) + 2 * nat m + (if tc then 1 else 0)) * nat n \<and>
           vertices g ! nat base = [0, - (H / 2), B] \<and>
           vertices g ! nat (base + m * n) = [0, H / 2, T] \<and>
           vertex_normals g ! nat base =
             [0, sin (arctan ((B - T) / H)), cos (arctan ((B - T) / H))]"
proof -
  obtain g where g: "truncated_cone b t h dx dy bc tc = Inr g"
    using truncated_cone_total by blast
  have pos: "0 < B" "0 \<le> T" "0 < H" "3 \<le> n" "1 \<le> m"
    by (auto simp: B_def T_def H_def n_def m_def)
  have san: "truncated_cone B T H n m bc tc = Inr (g\<lparr>detail_x := n, detail_y := m\<rparr>)"
    unfolding B_def T_def H_def n_def m_def by (rule truncated_cone_sanitized_call [OF g])
  have v0: "vertices g ! nat ((0 - (if bc then -2 else 0)) * n + 0) =
            ring_position B T H n m 0 0"
    unfolding B_def T_def H_def n_def m_def
    by (rule truncated_cone_vertex [OF g]) auto
  have vm: "vertices g ! nat ((m - (if bc then -2 else 0)) * n + 0) =
            ring_position B T H n m m 0"
    unfolding B_def T_def H_def n_def m_def
    by (rule truncated_cone_vertex [OF g]) auto
  have n0: "vertex_normals g ! nat ((0 - (if bc then -2 else 0)) * n + 0) =
            ring_normal T n m (sin (atan2 (B - T) H)) (cos (atan2 (B - T) H)) 0 0"
    unfolding B_def T_def H_def n_def m_def
    by (rule truncated_cone_normal [OF g]) auto
  have p0: "ring_position B T H n m 0 0 = [0, - (H / 2), B]"
    using pos by (simp add: ring_position_def level_radius_def level_y_def)
  have pm: "ring_position B T H n m m 0 = [0, H / 2, T]"
    using pos by (simp add: ring_position_def level_radius_def level_y_def)
  have q0: "ring_normal T n m (sin (atan2 (B - T) H)) (cos (atan2 (B - T) H)) 0 0 =
            [0, sin (arctan ((B - T) / H)), cos (arctan ((B - T) / H))]"
    using pos by (simp add: ring_normal_def atan2_def)
  have i0: "(0 - (if bc then -2 else 0)) * n + 0 = base"
    by (simp add: base_def)
  have im: "(m - (if bc then -2 else 0)) * n + 0 = base + m * n"
    by (simp add: base_def algebra_simps)
  have cnt: "length (vertices g) =
             nat (m + 1 + (if bc then 2 else 0) + (if tc then 2 else 0)) * nat n"
    using truncated_cone_vertex_count [OF g] by (simp add: n_def m_def)
  have fcnt: "length (faces g) =
             ((if bc then 1 else 0) + 2 * nat m + (if tc then 1 else 0)) * nat n"
    using truncated_cone_face_count [OF g] by (simp add: n_def m_def)
  show ?thesis
    using g san pos cnt fcnt v0 vm n0 unfolding p0 pm q0 i0 im by blast
qed

theorem truncated_cone_sanitizes_witness:
  "\<exists>g. truncated_cone (-1) (-2) 0 2 0 True True = Inr g \<and>
       truncated_cone 1 0 1 3 1 True True = Inr (g\<lparr>detail_x := 3, detail_y := 1\<rparr>) \<and>
       length (vertices g) = 18 \<and> length (faces g) = 12 \<and>
       vertices g ! 6 = [0, - (1 / 2), 1] \<and> vertices g ! 9 = [0, 1 / 2, 0] \<and>
       vertex_normals g ! 6 = [0, sin (arctan 1), cos (arctan 1)]"
  using truncated_cone_sanitizes [of "-1" "-2" 0 2 0 True True] by simp
text \<open>
  Claim C9. The mesh returned by \<^verbatim>\<open>truncated_cone\<close>, and so the mesh returned by
  \<^verbatim>\<open>cylinder\<close> and by \<^verbatim>\<open>cone\<close>, stores the caller's raw \<^verbatim>\<open>detail_x\<close>
  and \<^verbatim>\<open>detail_y\<close>, while its rings are generated from the floored values: it has
  \<open>max detail_x 3\<close> vertices in each of its \<open>max detail_y 1 + 1\<close> side levels and cap
  levels. For \<^verbatim>\<open>detail_x < 3\<close> or \<^verbatim>\<open>detail_y < 1\<close> the stored fields differ
  from the counts that were used.
\<close>

theorem truncated_cone_keeps_raw_detail:
  "(\<exists>g. truncated_cone b t h dx dy bc tc = Inr g \<and> detail_x g = dx \<and> detail_y g = dy \<and>
        length (vertices g) =
          nat (max dy 1 + 1 + (if bc then 2 else 0) + (if tc then 2 else 0)) * nat (max dx 3)) \<and>
   (\<exists>g. cylinder radius height dx dy tc bc = Inr g \<and> detail_x g = dx \<and> detail_y g = dy \<and>
        length (vertices g) =
          nat (max dy 1 + 1 + (if bc then 2 else 0) + (if tc then 2 else 0)) * nat (max dx 3)) \<and>
   (\<exists>g. cone radius height dx dy bc = Inr g \<and> detail_x g = dx \<and> detail_y g = dy \<and>
        length (vertices g) =
          nat (max dy 1 + 1 + (if bc then 2 else 0)) * nat (max dx 3))"
proof -
  obtain g where g: "truncated_cone b t h dx dy bc tc = Inr g"
    using truncated_cone_total by blast
  obtain g1 where g1: "truncated_cone 1 1 1 dx dy bc tc = Inr g1"
    using truncated_cone_total by blast
  obtain g2 where g2: "truncated_cone 1 0 1 dx dy bc False = Inr g2"
    using truncated_cone_total by blast
  have "cylinder radius height dx dy tc bc =
        Inr (edges_to_vertices (make_triangle_edges
          (g1\<lparr>matrix := Some (scale_transform radius height radius)\<rparr>)))"
    by (simp add: cylinder_def g1)
  moreover have "cone radius height dx dy bc =
        Inr ((edges_to_vertices (make_triangle_edges g2))
          \<lparr>matrix := Some (scale_transform radius height radius)\<rparr>)"
    by (simp add: cone_def g2)
  ultimately show ?thesis
    using g truncated_cone_detail [OF g] truncated_cone_vertex_count [OF g]
      truncated_cone_detail [OF g1] truncated_cone_vertex_count [OF g1]
      truncated_cone_detail [OF g2] truncated_cone_vertex_count [OF g2]
    by (simp add: edges_to_vertices_def make_triangle_edges_def)
qed

theorem truncated_cone_keeps_raw_detail_witness:
  "(\<exists>g. truncated_cone 1 1 1 0 0 True True = Inr g \<and> detail_x g = 0 \<and> detail_y g = 0 \<and>
        length (vertices g) = 18) \<and>
   (\<exists>g. cylinder 50 50 0 0 True True = Inr g \<and> detail_x g = 0 \<and> detail_y g = 0 \<and>
        length (vertices g) = 18) \<and>
   (\<exists>g. cone 50 50 0 0 True = Inr g \<and> detail_x g = 0 \<and> detail_y g = 0 \<and>
        length (vertices g) = 12)"
  using truncated_cone_keeps_raw_detail [of 1 1 1 0 0 True True 50 50] by simp

text \<open>
  Claim C5. For every \<open>b \<le> 0\<close> and every choice of the other arguments,
  \<^verbatim>\<open>truncated_cone(b, ...)\<close> returns the same mesh as
  \<^verbatim>\<open>truncated_cone(1, ...)\<close>: neither call raises, and the two meshes agree in every
  attribute (vertices, normals, UVs and faces among them).
\<close>

theorem truncated_cone_nonpositive_bottom:
  assumes "b \<le> 0"
  shows "\<exists>g. truncated_cone b t h dx dy bc tc = Inr g \<and>
             truncated_cone 1 t h dx dy bc tc = Inr g"
  using assms by (simp add: truncated_cone_closed)

theorem truncated_cone_nonpositive_bottom_witness:
  "\<exists>g. truncated_cone (-3) 2 5 8 4 True False = Inr g \<and>
       truncated_cone 1 2 5 8 4 True False = Inr g"
  using truncated_cone_nonpositive_bottom [of "-3" 2 5 8 4 True False] by simp


section \<open>ellipsoid and sphere\<close>

lemma ellipsoid_point_loop:
  assumes "dx \<noteq> 0"
  shows "for_loop xs (ellipsoid_point dx v cosPhi sinPhi) geom =
    Inr (geom\<lparr>vertices := vertices geom @
                 map (\<lambda>j. [cosPhi * sin (2 * pi * (of_int j / of_int dx)), sinPhi,
                           cosPhi * cos (2 * pi * (of_int j / of_int dx))]) xs,
              vertex_normals := vertex_normals geom @
                 map (\<lambda>j. [cosPhi * sin (2 * pi * (of_int j / of_int dx)), sinPhi,
                           cosPhi * cos (2 * pi * (of_int j / of_int dx))]) xs,
              uvs := uvs geom @ concat (map (\<lambda>j. [of_int j / of_int dx, v]) xs)\<rparr>)"
  using assms
  by (induction xs arbitrary: geom) (simp_all add: ellipsoid_point_def truediv_Inr Let_def)

lemma ellipsoid_row_loop:
  assumes "dx \<noteq> 0" "dy \<noteq> 0"
  shows "for_loop ys (ellipsoid_row dx dy) geom =
    Inr (geom\<lparr>vertices := vertices geom @
                 concat (map (\<lambda>i. map (ellipsoid_position dx dy i) (range1 (dx + 1))) ys),
              vertex_normals := vertex_normals geom @
                 concat (map (\<lambda>i. map (ellipsoid_position dx dy i) (range1 (dx + 1))) ys),
              uvs := uvs geom @
                 concat (map (\<lambda>i. concat (map (\<lambda>j. [of_int j / of_int dx, of_int i / of_int dy])
                                (range1 (dx + 1)))) ys)\<rparr>)"
  using assms
  by (induction ys arbitrary: geom)
     (simp_all add: ellipsoid_row_def truediv_Inr Let_def ellipsoid_point_loop
        ellipsoid_position_def)

lemma ellipsoid_closed:
  assumes "dx \<noteq> 0" "dy \<noteq> 0"
  shows "ellipsoid radius_x radius_y radius_z dx dy =
    Inr (edges_to_vertices (make_triangle_edges (compute_faces ((Geometry dx dy)
      \<lparr>vertices := concat (map (\<lambda>i. map (ellipsoid_position dx dy i) (range1 (dx + 1)))
                      (range1 (dy + 1))),
       vertex_normals := concat (map (\<lambda>i. map (ellipsoid_position dx dy i) (range1 (dx + 1)))
                      (range1 (dy + 1))),
       uvs := concat (map (\<lambda>i. concat (map (\<lambda>j. [of_int j / of_int dx, of_int i / of_int dy])
                      (range1 (dx + 1)))) (range1 (dy + 1)))\<rparr>)))
      \<lparr>matrix := Some (scale_transform radius_x radius_y radius_z)\<rparr>)"
  by (simp add: ellipsoid_def ellipsoid_row_loop [OF assms] Geometry_def)

text \<open>
  Claim C7. For all radii and all \<open>dx \<ge> 1\<close>, \<open>dy \<ge> 1\<close>, \<^verbatim>\<open>ellipsoid\<close> returns a
  mesh with exactly \<open>(dx+1)(dy+1)\<close> vertices and as many vertex normals, the list of
  normals is the list of vertices, and the vertex at grid row \<open>i\<close> and column \<open>j\<close>
  (index \<open>i(dx+1) + j\<close>) is \<open>(cos \<phi> sin \<theta>, sin \<phi>, cos \<phi> cos \<theta>)\<close> with
  \<open>\<phi> = \<pi>v - \<pi>/2\<close>, \<open>\<theta> = 2\<pi>u\<close>, \<open>v = i/dy\<close> and \<open>u = j/dx\<close>.
\<close>

theorem ellipsoid_grid:
  assumes "1 \<le> dx" and "1 \<le> dy"
  shows "\<exists>g. ellipsoid radius_x radius_y radius_z dx dy = Inr g \<and>
           length (vertices g) = nat ((dx + 1) * (dy + 1)) \<and>
           length (vertex_normals g) = nat ((dx + 1) * (dy + 1)) \<and>
           vertex_normals g = vertices g \<and>
           (\<forall>i j. 0 \<le> i \<and> i \<le> dy \<and> 0 \<le> j \<and> j \<le> dx \<longrightarrow>
              vertices g ! nat (i * (dx + 1) + j) =
                (let v = real_of_int i / real_of_int dy;
                     u = real_of_int j / real_of_int dx;
                     phi = pi * v - pi / 2;
                     theta = 2 * pi * u
                 in [cos phi * sin theta, sin phi, cos phi * cos theta]))"
proof -
  let ?rows = "map (\<lambda>i. map (ellipsoid_position dx dy i) (range1 (dx + 1))) (range1 (dy + 1))"
  have nz: "dx \<noteq> 0" "dy \<noteq> 0" using assms by auto
  obtain g where g: "ellipsoid radius_x radius_y radius_z dx dy = Inr g"
    and v: "vertices g = concat ?rows" and n: "vertex_normals g = concat ?rows"
    by (simp add: ellipsoid_closed [OF nz] helper_frame)
  have rows: "\<And>r. r \<in> set ?rows \<Longrightarrow> length r = nat (dx + 1)"
    by (auto simp: length_range1)
  have len: "length (concat ?rows) = nat ((dx + 1) * (dy + 1))"
    using assms
    by (subst length_concat_rows [OF rows])
       (simp_all add: length_range1 nat_mult_distrib mult.commute)
  have nth: "vertices g ! nat (i * (dx + 1) + j) = ellipsoid_position dx dy i j"
    if "0 \<le> i" "i \<le> dy" "0 \<le> j" "j \<le> dx" for i j
  proof -
    have idx: "nat (i * (dx + 1) + j) = nat i * nat (dx + 1) + nat j"
      using that assms by (simp add: nat_add_distrib nat_mult_distrib)
    have "concat ?rows ! (nat i * nat (dx + 1) + nat j) = ?rows ! nat i ! nat j"
      using that by (intro nth_concat_rows [OF rows]) (simp_all add: length_range1)
    also have "\<dots> = ellipsoid_position dx dy i j"
      using that by (simp add: nth_range1 length_range1)
    finally show ?thesis by (simp add: v idx)
  qed
  show ?thesis
    using g v n len nth by (auto simp: ellipsoid_position_def Let_def)
qed

theorem ellipsoid_grid_witness:
  "\<exists>g. ellipsoid 50 50 50 24 16 = Inr g \<and> length (vertices g) = 425 \<and>
       length (vertex_normals g) = 425 \<and> vertex_normals g = vertices g \<and>
       vertices g ! 12 = [0, - 1, 0]"
proof -
  obtain g where g: "ellipsoid 50 50 50 24 16 = Inr g"
    "length (vertices g) = nat ((24 + 1) * (16 + 1))"
    "length (vertex_normals g) = nat ((24 + 1) * (16 + 1))"
    "vertex_normals g = vertices g"
    "\<forall>i j. 0 \<le> i \<and> i \<le> 16 \<and> 0 \<le> j \<and> j \<le> 24 \<longrightarrow>
       vertices g ! nat (i * (24 + 1) + j) =
         (let v = real_of_int i / real_of_int 16;
              u = real_of_int j / real_of_int 24;
              phi = pi * v - pi / 2;
              theta = 2 * pi * u
          in [cos phi * sin theta, sin phi, cos phi * cos theta])"
    using ellipsoid_grid [of 24 16 50 50 50] by auto
  from g(5) [rule_format, of 0 12] have "vertices g ! 12 = [0, - 1, 0]"
    by (simp add: Let_def)
  with g(1-4) show ?thesis by simp
qed

text \<open>
  Claim C8. For every radius and all detail values, \<^verbatim>\<open>sphere\<close> returns what
  \<^verbatim>\<open>ellipsoid\<close> returns for three equal radii; the call \<^verbatim>\<open>sphere(radius=50)\<close>
  with its defaults returns the mesh of \<^verbatim>\<open>ellipsoid(50, 50, 50, 24, 16)\<close>.
\<close>

theorem sphere_is_ellipsoid:
  "sphere radius dx dy = ellipsoid radius radius radius dx dy \<and>
   (\<exists>g. sphere_call (Some 50) None None = Inr g \<and> ellipsoid 50 50 50 24 16 = Inr g)"
  by (simp add: sphere_def sphere_call_def ellipsoid_closed)

theorem sphere_is_ellipsoid_witness:
  "sphere 50 24 16 = ellipsoid 50 50 50 24 16"
  using sphere_is_ellipsoid [of 50 24 16] by simp

section \<open>One normal and one UV pair for each vertex\<close>

text \<open>
  \<^verbatim>\<open>box\<close>, \<^verbatim>\<open>plane\<close>, \<^verbatim>\<open>ellipsoid\<close> (and so \<^verbatim>\<open>sphere\<close>),
  \<^verbatim>\<open>truncated_cone\<close>, \<^verbatim>\<open>cylinder\<close> and \<^verbatim>\<open>cone\<close> return meshes with
  parallel lists whenever they return a mesh.
\<close>

lemma length_compute_normals:
  "length (vertex_normals (compute_normals g)) =
     (if vertex_normals g \<noteq> [] then length (vertex_normals g) else length (vertices g))"
  by (simp add: compute_normals_def)

lemma compute_normals_frame:
  "vertices (compute_normals g) = vertices g"
  "uvs (compute_normals g) = uvs g"
  "faces (compute_normals g) = faces g"
  by (simp_all add: compute_normals_def)

lemma parallel_lists_helpers:
  "parallel_lists (edges_to_vertices g) = parallel_lists g"
  "parallel_lists (make_triangle_edges g) = parallel_lists g"
  "parallel_lists (compute_faces g) = parallel_lists g"
  "parallel_lists (g\<lparr>matrix := t\<rparr>) = parallel_lists g"
  by (simp_all add: parallel_lists_def uv_count_def helper_frame)

lemma parallel_lists_compute_normals:
  "uv_count g = length (vertices g) \<Longrightarrow> vertex_normals g = [] \<Longrightarrow>
   parallel_lists (compute_normals g)"
  by (simp add: parallel_lists_def uv_count_def compute_normals_frame length_compute_normals)

lemma box_parallel_lists: "parallel_lists (box width height depth dx dy)"
proof -
  have "length (vertex_normals (box width height depth dx dy)) =
        length (vertices (box width height depth dx dy))"
    by (simp add: box_unfold)
  then show ?thesis
    by (simp add: parallel_lists_def uv_count_def box_vertices box_uvs)
qed

lemma plane_point_loop:
  assumes "dx \<noteq> 0"
  shows "for_loop xs (plane_point dx v) geom =
    Inr (geom\<lparr>vertices := vertices geom @ map (\<lambda>j. [of_int j / of_int dx - 0.5, v - 0.5, 0]) xs,
              uvs := uvs geom @ concat (map (\<lambda>j. [of_int j / of_int dx, v]) xs)\<rparr>)"
  using assms
  by (induction xs arbitrary: geom) (simp_all add: plane_point_def truediv_Inr Let_def)

lemma plane_row_loop:
  assumes "dx \<noteq> 0" "dy \<noteq> 0"
  shows "for_loop ys (plane_row dx dy) geom =
    Inr (geom\<lparr>vertices := vertices geom @
                 concat (map (\<lambda>i. map (\<lambda>j. [of_int j / of_int dx - 0.5,
                                            of_int i / of_int dy - 0.5, 0])
                                (range1 (dx + 1))) ys),
              uvs := uvs geom @
                 concat (map (\<lambda>i. concat (map (\<lambda>j. [of_int j / of_int dx, of_int i / of_int dy])
                                (range1 (dx + 1)))) ys)\<rparr>)"
  using assms
  by (induction ys arbitrary: geom)
     (simp_all add: plane_row_def truediv_Inr plane_point_loop)

lemma length_grid:
  "length (concat (map (\<lambda>i. map (h i) xs) ys)) = length ys * length xs"
  by (rule length_concat_map) simp

lemma length_uv_grid:
  "length (concat (map (\<lambda>i. concat (map (\<lambda>j. [f i j, g i j]) xs)) ys)) =
   length ys * length xs * 2"
proof -
  have 1: "length (concat (map (\<lambda>j. [f i j, g i j]) xs)) = length xs * 2" for i
    by (rule length_concat_map) simp
  have "length (concat (map (\<lambda>i. concat (map (\<lambda>j. [f i j, g i j]) xs)) ys)) =
        length ys * (length xs * 2)"
    by (rule length_concat_map) (rule 1)
  then show ?thesis by simp
qed

lemma plane_parallel_lists:
  assumes "dx \<noteq> 0" "dy \<noteq> 0"
  shows "\<exists>g. plane width height dx dy = Inr g \<and> parallel_lists g"
proof -
  let ?g = "(Geometry dx dy)\<lparr>vertices := vertices (Geometry dx dy) @
                 concat (map (\<lambda>i. map (\<lambda>j. [of_int j / of_int dx - 0.5,
                                            of_int i / of_int dy - 0.5, 0])
                                (range1 (dx + 1))) (range1 (dy + 1))),
              uvs := uvs (Geometry dx dy) @
                 concat (map (\<lambda>i. concat (map (\<lambda>j. [of_int j / of_int dx, of_int i / of_int dy])
                                (range1 (dx + 1)))) (range1 (dy + 1)))\<rparr>"
  have p: "plane width height dx dy =
        Inr ((edges_to_vertices (make_triangle_edges (compute_normals (compute_faces ?g))))
              \<lparr>matrix := Some (scale_transform width height 1)\<rparr>)"
    by (simp add: plane_def plane_row_loop [OF assms])
  have "uv_count (compute_faces ?g) = length (vertices (compute_faces ?g))"
    unfolding uv_count_def helper_frame
    by (simp add: Geometry_def length_grid length_uv_grid)
  moreover have "vertex_normals (compute_faces ?g) = []"
    by (simp add: helper_frame Geometry_def)
  ultimately have "parallel_lists (compute_normals (compute_faces ?g))"
    by (rule parallel_lists_compute_normals)
  then show ?thesis unfolding p by (simp add: parallel_lists_helpers)
qed

lemma ellipsoid_parallel_lists:
  assumes "dx \<noteq> 0" "dy \<noteq> 0"
  shows "\<exists>g. ellipsoid radius_x radius_y radius_z dx dy = Inr g \<and> parallel_lists g"
proof -
  let ?g = "(Geometry dx dy)
      \<lparr>vertices := concat (map (\<lambda>i. map (ellipsoid_position dx dy i) (range1 (dx + 1)))
                      (range1 (dy + 1))),
       vertex_normals := concat (map (\<lambda>i. map (ellipsoid_position dx dy i) (range1 (dx + 1)))
                      (range1 (dy + 1))),
       uvs := concat (map (\<lambda>i. concat (map (\<lambda>j. [of_int j / of_int dx, of_int i / of_int dy])
                      (range1 (dx + 1)))) (range1 (dy + 1)))\<rparr>"
  have "parallel_lists ?g"
    by (simp add: parallel_lists_def uv_count_def length_grid length_uv_grid)
  then show ?thesis
    unfolding ellipsoid_closed [OF assms] by (simp add: parallel_lists_helpers)
qed

lemma truncated_cone_parallel_lists:
  "\<exists>g. truncated_cone b t h dx dy bc tc = Inr g \<and> parallel_lists g"
  unfolding truncated_cone_closed
  by (simp add: parallel_lists_def uv_count_def Geometry_def length_grid length_uv_grid)

lemma cylinder_cone_parallel_lists:
  "(\<exists>g. cylinder radius height dx dy tc bc = Inr g \<and> parallel_lists g) \<and>
   (\<exists>g. cone radius height dx dy bc = Inr g \<and> parallel_lists g)"
proof -
  obtain g1 where g1: "truncated_cone 1 1 1 dx dy bc tc = Inr g1" "parallel_lists g1"
    using truncated_cone_parallel_lists by blast
  obtain g2 where g2: "truncated_cone 1 0 1 dx dy bc False = Inr g2" "parallel_lists g2"
    using truncated_cone_parallel_lists by blast
  show ?thesis
    by (simp add: cylinder_def cone_def g1 g2 parallel_lists_helpers)
qed

section \<open>torus\<close>

lemma torus_point_loop:
  assumes "dx \<noteq> 0"
  shows "for_loop xs (torus_point dx tube_ratio r sinPhi) (geom, locals) =
    Inr (geom\<lparr>vertices := vertices geom @
                 map (\<lambda>j. [r * cos (2 * pi * (of_int j / of_int dx)),
                           r * sin (2 * pi * (of_int j / of_int dx)), tube_ratio * sinPhi]) xs\<rparr>,
         if xs = [] then locals else Some (torus_locals dx (last xs)))"
  using assms
  by (induction xs arbitrary: geom locals)
     (simp_all add: torus_point_def truediv_Inr Let_def torus_locals_def)

lemma torus_row_step:
  assumes "1 \<le> dx" "dy \<noteq> 0"
  shows "torus_row dx dy tube_ratio i (geom, locals) =
    Inr (geom\<lparr>vertices := vertices geom @
                 map (torus_position dx dy tube_ratio i) (range1 (dx + 1)),
              vertex_normals := vertex_normals geom @
                 [[cos (2 * pi * (of_int i / of_int dy)), 0, sin (2 * pi * (of_int i / of_int dy))]],
              uvs := uvs geom @ [1, of_int i / of_int dy]\<rparr>,
         Some (1, 1, 0))"
proof -
  have dx: "dx \<noteq> 0" "0 < dx + 1" "range1 (dx + 1) \<noteq> []"
    using assms by (auto simp: range1_Nil)
  have loc: "torus_locals dx (last (range1 (dx + 1))) = (1, 1, 0)"
    using dx by (simp add: last_range1 torus_locals_def)
  show ?thesis
    using dx assms
    by (simp add: torus_row_def truediv_Inr Let_def torus_point_loop loc torus_position_def)
qed

lemma torus_row_loop:
  assumes "1 \<le> dx" "dy \<noteq> 0"
  shows "for_loop ys (torus_row dx dy tube_ratio) (geom, locals) =
    Inr (geom\<lparr>vertices := vertices geom @
                 concat (map (\<lambda>i. map (torus_position dx dy tube_ratio i) (range1 (dx + 1))) ys),
              vertex_normals := vertex_normals geom @
                 map (\<lambda>i. [cos (2 * pi * (of_int i / of_int dy)), 0,
                           sin (2 * pi * (of_int i / of_int dy))]) ys,
              uvs := uvs geom @ concat (map (\<lambda>i. [1, of_int i / of_int dy]) ys)\<rparr>,
         if ys = [] then locals else Some (1, 1, 0))"
  by (induction ys arbitrary: geom locals) (simp_all add: torus_row_step [OF assms])

lemma torus_closed:
  assumes "radius \<noteq> 0" "1 \<le> dx" "dy \<noteq> 0"
  shows "torus radius tube_radius dx dy =
    Inr (edges_to_vertices (make_triangle_edges (compute_faces ((Geometry dx dy)
      \<lparr>vertices := concat (map (\<lambda>i. map (torus_position dx dy (tube_radius / radius) i)
                      (range1 (dx + 1))) (range1 (dy + 1))),
       vertex_normals := map (\<lambda>i. [cos (2 * pi * (of_int i / of_int dy)), 0,
                           sin (2 * pi * (of_int i / of_int dy))]) (range1 (dy + 1)),
       uvs := concat (map (\<lambda>i. [1, of_int i / of_int dy]) (range1 (dy + 1)))\<rparr>)))
      \<lparr>matrix := Some (scale_transform radius radius radius)\<rparr>)"
  using assms(1)
  by (simp add: torus_def truediv_Inr torus_row_loop [OF assms(2,3)] Geometry_def)

lemma torus_counts:
  assumes "radius \<noteq> 0" "1 \<le> dx" "1 \<le> dy"
  shows "\<exists>g. torus radius tube_radius dx dy = Inr g \<and>
           length (vertices g) = nat (dy + 1) * nat (dx + 1) \<and>
           length (vertex_normals g) = nat (dy + 1) \<and>
           uv_count g = nat (dy + 1)"
proof -
  have dy: "dy \<noteq> 0" using assms by simp
  have "length (concat (map (\<lambda>i. map (torus_position dx dy (tube_radius / radius) i)
          (range1 (dx + 1))) (range1 (dy + 1)))) = length (range1 (dy + 1)) * nat (dx + 1)"
    by (rule length_concat_map) (simp add: length_range1)
  moreover have "length (concat (map (\<lambda>i. [1, real_of_int i / real_of_int dy]) (range1 (dy + 1)))) =
      length (range1 (dy + 1)) * 2"
    by (rule length_concat_map) simp
  ultimately show ?thesis
    by (simp add: torus_closed [OF assms(1,2) dy] helper_frame uv_count_def length_range1)
qed

text \<open>
  Claim C1, at the call \<^verbatim>\<open>torus(50, 10, 24, 16)\<close> (the defaults of
  \<^verbatim>\<open>torus\<close>): the mesh has 425 vertices, but only 17 vertex normals and 17 UV
  pairs, one for each row of the grid. The claim asks for 425 of each; the other
  factories keep the invariant, as the lemmas of the preceding section show.
\<close>

theorem torus_default_counts:
  "\<exists>g. torus 50 10 24 16 = Inr g \<and> length (vertices g) = 425 \<and>
       length (vertex_normals g) = 17 \<and> uv_count g = 17 \<and> \<not> parallel_lists g"
proof -
  obtain g where g: "torus 50 10 24 16 = Inr g" "length (vertices g) = 425"
    "length (vertex_normals g) = 17" "uv_count g = 17"
    using torus_counts [of 50 24 16 10] by auto
  then have "\<not> parallel_lists g" by (simp add: parallel_lists_def)
  with g show ?thesis by blast
qed

section \<open>cone\<close>

lemma segment_below:
  assumes "0 < n" and "s + 2 * n \<le> first"
  shows "filter (list_ex (\<lambda>i. first \<le> i)) (segment_faces n s) = []"
proof -
  have "filter (list_ex (\<lambda>i. first \<le> i)) (quad_faces n s ii) = []"
    if "ii \<in> set (range1 n)" for ii
  proof -
    obtain nx where nx: "(ii + 1) mod n = nx" "0 \<le> nx" "nx < n"
      using next_index [OF assms(1)] by blast
    have q: "quad_faces n s ii = [[s + ii, s + nx, s + n + nx], [s + ii, s + n + nx, s + n + ii]]"
      by (simp add: quad_faces_def nx(1))
    have "0 \<le> ii" "ii < n" using that by (simp_all add: set_range1)
    then show ?thesis unfolding q using assms(2) nx(2,3) by simp
  qed
  then show ?thesis unfolding segment_faces_def by (rule filter_concat_map_Nil)
qed

lemma segment_above:
  assumes "0 < n" and "first \<le> s + n"
  shows "filter (list_ex (\<lambda>i. first \<le> i)) (segment_faces n s) = segment_faces n s"
proof -
  have "list_ex (\<lambda>i. first \<le> i) f" if "f \<in> set (segment_faces n s)" for f
  proof -
    from that obtain ii where ii: "0 \<le> ii" "ii < n" and f: "f \<in> set (quad_faces n s ii)"
      by (auto simp: segment_faces_def set_range1)
    obtain nx where nx: "(ii + 1) mod n = nx" "0 \<le> nx" "nx < n"
      using next_index [OF assms(1)] by blast
    have q: "quad_faces n s ii = [[s + ii, s + nx, s + n + nx], [s + ii, s + n + nx, s + n + ii]]"
      by (simp add: quad_faces_def nx(1))
    show ?thesis using f assms(2) ii nx(2) unfolding q by auto
  qed
  then show ?thesis by (simp add: filter_id_conv)
qed

lemma fan_bottom_below:
  assumes "0 < n" and "s + 2 * n \<le> first"
  shows "filter (list_ex (\<lambda>i. first \<le> i)) (fan_bottom n s) = []"
proof -
  have "\<not> list_ex (\<lambda>i. first \<le> i) [s + jj, s + n + (jj + 1) mod n, s + n + jj]"
    if "jj \<in> set (range1 n)" for jj
  proof -
    obtain nx where nx: "(jj + 1) mod n = nx" "0 \<le> nx" "nx < n"
      using next_index [OF assms(1)] by blast
    have "0 \<le> jj" "jj < n" using that by (simp_all add: set_range1)
    then show ?thesis unfolding nx(1) using assms(2) nx(2,3) by simp
  qed
  then show ?thesis by (simp add: fan_bottom_def filter_empty_conv)
qed

lemma length_segment_faces: "length (segment_faces n s) = 2 * nat n"
  unfolding segment_faces_def
  by (subst length_concat_map [where n = 2]) (simp_all add: quad_faces_def length_range1)

lemma cone_closed:
  assumes "3 \<le> dx" "1 \<le> dy"
  shows "\<exists>g0. truncated_cone 1 0 1 dx dy True False = Inr g0 \<and>
              cone radius height dx dy True =
                Inr ((edges_to_vertices (make_triangle_edges g0))
                       \<lparr>matrix := Some (scale_transform radius height radius)\<rparr>) \<and>
              faces g0 = fan_bottom dx 0 @
                concat (map (\<lambda>k. segment_faces dx (dx * 2 + int k * dx)) [0..<nat dy])"
proof -
  have mx: "max dx 3 = dx" "max dy 1 = dy" using assms by simp_all
  obtain g0 where g0: "truncated_cone 1 0 1 dx dy True False = Inr g0"
    using truncated_cone_total by blast
  have "faces g0 = fan_bottom dx 0 @
          concat (map (\<lambda>k. segment_faces dx (dx * 2 + int k * dx)) [0..<nat dy])"
    using g0 unfolding truncated_cone_closed mx by auto
  then show ?thesis using g0 by (simp add: cone_def)
qed

lemma cone_faces_touching:
  assumes "3 \<le> dx" "1 \<le> dy"
  shows "length (filter (list_ex (\<lambda>i. (dy + 2) * dx \<le> i))
           (fan_bottom dx 0 @
            concat (map (\<lambda>k. segment_faces dx (dx * 2 + int k * dx)) [0..<nat dy]))) =
         2 * nat dx"
proof -
  let ?P = "list_ex (\<lambda>i. (dy + 2) * dx \<le> i)"
  let ?seg = "\<lambda>k. segment_faces dx (dx * 2 + int k * dx)"
  have n: "0 < dx" using assms by simp
  obtain M where M: "nat dy = Suc M" using assms(2) by (cases "nat dy") auto
  then have dy: "dy = int M + 1" by linarith
  have "0 \<le> int M * dx" using n by simp
  then have bot: "filter ?P (fan_bottom dx 0) = []"
    using n by (intro fan_bottom_below) (simp_all add: dy algebra_simps)
  have low: "filter ?P (?seg k) = []" if "k \<in> set [0..<M]" for k
  proof -
    have "int k + 1 \<le> int M" using that by simp
    then have "(int k + 1) * dx \<le> int M * dx" using n by (intro mult_right_mono) simp_all
    then show ?thesis using n by (intro segment_below) (simp_all add: dy algebra_simps)
  qed
  have top: "filter ?P (?seg M) = ?seg M"
    using n by (intro segment_above) (simp_all add: dy algebra_simps)
  have lows: "filter ?P (concat (map ?seg [0..<M])) = []"
    by (rule filter_concat_map_Nil) (rule low)
  have "filter ?P (fan_bottom dx 0 @ concat (map ?seg [0..<nat dy])) = ?seg M"
    unfolding M by (simp add: bot top lows)
  then show ?thesis by (simp add: length_segment_faces)
qed

lemma length_filter_concat_map:
  assumes "\<And>x. x \<in> set xs \<Longrightarrow> length (filter Q (f x)) = c"
  shows "length (filter Q (concat (map f xs))) = length xs * c"
  using assms by (induction xs) simp_all

lemma filter_Nil_mono:
  assumes "filter P xs = []" and "\<And>x. Q x \<Longrightarrow> P x"
  shows "filter Q xs = []"
  using assms by (auto simp: filter_empty_conv)

lemma corners_touch:
  assumes "corners_from first f = Suc k"
  shows "list_ex (\<lambda>i. first \<le> i) f"
proof -
  have "filter (\<lambda>i. first \<le> i) f \<noteq> []"
    using assms unfolding corners_from_def by auto
  then show ?thesis by (auto simp: filter_empty_conv list_ex_iff)
qed

lemma segment_top_corners:
  assumes "0 < n"
  shows "length (filter (\<lambda>f. corners_from (s + n) f = 1) (segment_faces n s)) = nat n"
    and "length (filter (\<lambda>f. corners_from (s + n) f = 2) (segment_faces n s)) = nat n"
proof -
  have q: "length (filter (\<lambda>f. corners_from (s + n) f = 1) (quad_faces n s ii)) = 1 \<and>
           length (filter (\<lambda>f. corners_from (s + n) f = 2) (quad_faces n s ii)) = 1"
    if "ii \<in> set (range1 n)" for ii
  proof -
    obtain nx where nx: "(ii + 1) mod n = nx" "0 \<le> nx" "nx < n"
      using next_index [OF assms] by blast
    have q: "quad_faces n s ii = [[s + ii, s + nx, s + n + nx], [s + ii, s + n + nx, s + n + ii]]"
      by (simp add: quad_faces_def nx(1))
    have "0 \<le> ii" "ii < n" using that by (simp_all add: set_range1)
    then show ?thesis unfolding q using nx(2,3) by (simp add: corners_from_def)
  qed
  have "length (filter (\<lambda>f. corners_from (s + n) f = 1) (segment_faces n s)) =
        length (range1 n) * 1"
    unfolding segment_faces_def
    by (rule length_filter_concat_map) (rule q [THEN conjunct1])
  then show "length (filter (\<lambda>f. corners_from (s + n) f = 1) (segment_faces n s)) = nat n"
    by (simp add: length_range1)
  have "length (filter (\<lambda>f. corners_from (s + n) f = 2) (segment_faces n s)) =
        length (range1 n) * 1"
    unfolding segment_faces_def
    by (rule length_filter_concat_map) (rule q [THEN conjunct2])
  then show "length (filter (\<lambda>f. corners_from (s + n) f = 2) (segment_faces n s)) = nat n"
    by (simp add: length_range1)
qed

lemma cone_faces_corners:
  assumes "3 \<le> dx" "1 \<le> dy" and k: "k = 1 \<or> k = 2"
  shows "length (filter (\<lambda>f. corners_from ((dy + 2) * dx) f = k)
           (fan_bottom dx 0 @
            concat (map (\<lambda>k. segment_faces dx (dx * 2 + int k * dx)) [0..<nat dy]))) =
         nat dx"
proof -
  let ?P = "list_ex (\<lambda>i. (dy + 2) * dx \<le> i)"
  let ?Q = "\<lambda>f. corners_from ((dy + 2) * dx) f = k"
  let ?seg = "\<lambda>k. segment_faces dx (dx * 2 + int k * dx)"
  have QP: "?Q f \<Longrightarrow> ?P f" for f
    using k corners_touch [of "(dy + 2) * dx" f] by auto
  have n: "0 < dx" using assms by simp
  obtain M where M: "nat dy = Suc M" using assms(2) by (cases "nat dy") auto
  then have dy: "dy = int M + 1" by linarith
  have "0 \<le> int M * dx" using n by simp
  then have "filter ?P (fan_bottom dx 0) = []"
    using n by (intro fan_bottom_below) (simp_all add: dy algebra_simps)
  then have bot: "filter ?Q (fan_bottom dx 0) = []"
    by (rule filter_Nil_mono) (rule QP)
  have low: "filter ?Q (?seg j) = []" if "j \<in> set [0..<M]" for j
  proof -
    have "int j + 1 \<le> int M" using that by simp
    then have "(int j + 1) * dx \<le> int M * dx" using n by (intro mult_right_mono) simp_all
    then have "filter ?P (?seg j) = []"
      using n by (intro segment_below) (simp_all add: dy algebra_simps)
    then show ?thesis by (rule filter_Nil_mono) (rule QP)
  qed
  have lows: "filter ?Q (concat (map ?seg [0..<M])) = []"
    by (rule filter_concat_map_Nil) (rule low)
  have first: "(dy + 2) * dx = dx * 2 + int M * dx + dx"
    by (simp add: dy algebra_simps)
  have top: "length (filter ?Q (?seg M)) = nat dx"
    unfolding first using k segment_top_corners [OF n, of "dx * 2 + int M * dx"] by auto
  have "filter ?Q (fan_bottom dx 0 @ concat (map ?seg [0..<nat dy])) = filter ?Q (?seg M)"
    unfolding M by (simp add: bot lows)
  then show ?thesis by (simp add: top)
qed

text \<open>
  Claim C3, as amended. For all \<open>dx \<ge> 3\<close> and \<open>dy \<ge> 1\<close>, \<^verbatim>\<open>cone\<close> with
  \<^verbatim>\<open>cap=True\<close> returns a mesh with \<open>(dy+3) dx\<close> vertices: the two rings of the
  bottom cap and the \<open>dy+1\<close> rings of the side, and no ring after the top ring of the
  side (no top-cap rim, no top-cap centre). The \<open>dx\<close> vertices of the top ring all lie
  at the one apex point \<open>(0, 1/2, 0)\<close>. Exactly \<open>2 dx\<close> triangles have a corner in the
  top ring, two for each quad of the last side segment: \<open>dx\<close> of them with one corner
  there, and \<open>dx\<close> with two corners there (both at the apex point, so these have no
  area).
\<close>

theorem cone_apex_ring:
  assumes "3 \<le> dx" and "1 \<le> dy"
  shows "\<exists>g. cone radius height dx dy True = Inr g \<and>
           length (vertices g) = nat (dy + 3) * nat dx \<and>
           (\<forall>ii. 0 \<le> ii \<and> ii < dx \<longrightarrow>
              vertices g ! nat ((dy + 2) * dx + ii) = [0, 1 / 2, 0]) \<and>
           length (faces_touching ((dy + 2) * dx) g) = 2 * nat dx \<and>
           length (faces_with_corners ((dy + 2) * dx) 1 g) = nat dx \<and>
           length (faces_with_corners ((dy + 2) * dx) 2 g) = nat dx"
proof -
  have mx: "max dx 3 = dx" "max dy 1 = dy" using assms by simp_all
  obtain g0 where g0: "truncated_cone 1 0 1 dx dy True False = Inr g0"
    and g: "cone radius height dx dy True =
              Inr ((edges_to_vertices (make_triangle_edges g0))
                     \<lparr>matrix := Some (scale_transform radius height radius)\<rparr>)"
    and f: "faces g0 = fan_bottom dx 0 @
              concat (map (\<lambda>k. segment_faces dx (dx * 2 + int k * dx)) [0..<nat dy])"
    using cone_closed [OF assms] by blast
  let ?g = "(edges_to_vertices (make_triangle_edges g0))
              \<lparr>matrix := Some (scale_transform radius height radius)\<rparr>"
  have vs: "vertices ?g = vertices g0" and fs: "faces ?g = faces g0"
    by (simp_all add: helper_frame)
  have cnt: "length (vertices g0) = nat (dy + 3) * nat dx"
    using truncated_cone_vertex_count [OF g0] by (simp add: mx add.commute)
  have apex: "vertices g0 ! nat ((dy + 2) * dx + ii) = [0, 1 / 2, 0]"
    if "0 \<le> ii" "ii < dx" for ii
  proof -
    have "vertices g0 ! nat ((dy + 2) * dx + ii) = ring_position 1 0 1 dx dy dy ii"
      using truncated_cone_vertex [OF g0, of dy ii] that assms by (simp add: mx)
    moreover have "ring_position 1 0 1 dx dy dy ii = [0, 1 / 2, 0]"
      using assms by (simp add: ring_position_def level_radius_def level_y_def)
    ultimately show ?thesis by simp
  qed
  have touch: "length (faces_touching ((dy + 2) * dx) ?g) = 2 * nat dx"
    unfolding faces_touching_def fs f by (rule cone_faces_touching [OF assms])
  have one: "length (faces_with_corners ((dy + 2) * dx) 1 ?g) = nat dx"
    unfolding faces_with_corners_def fs f by (rule cone_faces_corners [OF assms]) simp
  have two: "length (faces_with_corners ((dy + 2) * dx) 2 ?g) = nat dx"
    unfolding faces_with_corners_def fs f by (rule cone_faces_corners [OF assms]) simp
  have "cone radius height dx dy True = Inr ?g \<and>
        length (vertices ?g) = nat (dy + 3) * nat dx \<and>
        (\<forall>ii. 0 \<le> ii \<and> ii < dx \<longrightarrow>
           vertices ?g ! nat ((dy + 2) * dx + ii) = [0, 1 / 2, 0]) \<and>
        length (faces_touching ((dy + 2) * dx) ?g) = 2 * nat dx \<and>
        length (faces_with_corners ((dy + 2) * dx) 1 ?g) = nat dx \<and>
        length (faces_with_corners ((dy + 2) * dx) 2 ?g) = nat dx"
    using g cnt apex touch one two unfolding vs by simp
  then show ?thesis by (rule exI)
qed

theorem cone_apex_ring_witness:
  "\<exists>g. cone 50 50 24 1 True = Inr g \<and> length (vertices g) = 96 \<and>
       vertices g ! 72 = [0, 1 / 2, 0] \<and> length (faces_touching 72 g) = 48 \<and>
       length (faces_with_corners 72 1 g) = 24 \<and> length (faces_with_corners 72 2 g) = 24"
proof -
  obtain g where g: "cone 50 50 24 1 True = Inr g"
    "length (vertices g) = nat (1 + 3) * nat 24"
    "\<forall>ii. 0 \<le> ii \<and> ii < 24 \<longrightarrow> vertices g ! nat ((1 + 2) * 24 + ii) = [0, 1 / 2, 0]"
    "length (faces_touching ((1 + 2) * 24) g) = 2 * nat 24"
    "length (faces_with_corners ((1 + 2) * 24) 1 g) = nat 24"
    "length (faces_with_corners ((1 + 2) * 24) 2 g) = nat 24"
    using cone_apex_ring [of 24 1 50 50] by auto
  from g(3) [rule_format, of 0] have "vertices g ! 72 = [0, 1 / 2, 0]" by simp
  with g(1,2,4,5,6) show ?thesis by simp
qed

text \<open>
  Claim C3 as stated fails at \<^verbatim>\<open>cone(50, 50, 3, 1, cap=True)\<close>: the top ring starts
  at index 9, and 6 triangles reference it, not \<open>detail_x = 3\<close>.
\<close>

theorem cone_apex_counterexample:
  "\<exists>g. cone 50 50 3 1 True = Inr g \<and> length (faces_touching 9 g) = 6 \<and>
       length (faces_touching 9 g) \<noteq> 3"
proof -
  obtain g0 where g0: "truncated_cone 1 0 1 3 1 True False = Inr g0"
    and g: "cone 50 50 3 1 True =
              Inr ((edges_to_vertices (make_triangle_edges g0))
                     \<lparr>matrix := Some (scale_transform 50 50 50)\<rparr>)"
    and f: "faces g0 = fan_bottom 3 0 @
              concat (map (\<lambda>k. segment_faces 3 (3 * 2 + int k * 3)) [0..<nat 1])"
    using cone_closed [of 3 1 50 50] by auto
  have "faces g0 = [[0, 4, 3], [1, 5, 4], [2, 3, 5],
                    [6, 7, 10], [6, 10, 9], [7, 8, 11], [7, 11, 10], [8, 6, 9], [8, 9, 11]]"
    unfolding f
    by (simp add: fan_bottom_def segment_faces_def quad_faces_def range1_def upto_0_2)
  then show ?thesis
    using g by (simp add: faces_touching_def helper_frame)
qed

section \<open>cylinder\<close>

lemma nxt_eq:
  assumes "0 \<le> p" "p < n"
  shows "nxt n p = (if p = n - 1 then 0 else p + 1)"
  using assms by (simp add: nxt_def)

lemma idx_step:
  assumes "0 \<le> n" "r < r'"
  shows "idx n r n \<le> idx n r' 0"
proof -
  have "(r + 1) * n \<le> r' * n" using assms by (intro mult_right_mono) simp_all
  then show ?thesis by (simp add: idx_def algebra_simps)
qed

lemma idx_less_iff:
  assumes "0 \<le> p" "p < n" "0 \<le> q" "q < n"
  shows "idx n r p < idx n r' q \<longleftrightarrow> r < r' \<or> (r = r' \<and> p < q)"
proof -
  have n: "0 \<le> n" using assms by simp
  consider "r < r'" | "r = r'" | "r' < r" by linarith
  then show ?thesis
  proof cases
    case 1
    then show ?thesis using idx_step [OF n 1] assms by (simp add: idx_def)
  next
    case 2
    then show ?thesis by (simp add: idx_def)
  next
    case 3
    then show ?thesis using idx_step [OF n 3] assms by (simp add: idx_def)
  qed
qed

lemma idx_eq_iff:
  assumes "0 \<le> p" "p < n" "0 \<le> q" "q < n"
  shows "idx n r p = idx n r' q \<longleftrightarrow> r = r' \<and> p = q"
  using idx_less_iff [OF assms, of r r'] idx_less_iff [OF assms(3,4,1,2), of r' r]
  by (auto simp: idx_def)


lemma nxt_range:
  assumes "0 < n"
  shows "0 \<le> nxt n p" and "nxt n p < n"
  using assms by (simp_all add: nxt_def)

lemma edge_set_append: "edge_set (xs @ ys) = edge_set xs \<union> edge_set ys"
  by (simp add: edge_set_def)

lemma edge_set_concat: "edge_set (concat (map f ks)) = (\<Union>k\<in>set ks. edge_set (f k))"
  by (induction ks) (simp_all add: edge_set_append, simp add: edge_set_def)

lemma edge_set_map: "edge_set (map f ks) = (\<Union>k\<in>set ks. edge_set [f k])"
  by (induction ks) (simp_all add: edge_set_def)

lemma undirected_up:
  assumes "0 \<le> p" "p < n" "0 \<le> q" "q < n" "r < r'"
  shows "undirected [idx n r p, idx n r' q] = ring_edge n (r, p, r', q)"
    and "undirected [idx n r' q, idx n r p] = ring_edge n (r, p, r', q)"
  using idx_less_iff [OF assms(1-4), of r r'] assms(5)
  by (simp_all add: undirected_def ring_edge_def)

lemma undirected_same:
  assumes "0 \<le> p" "p < n" "0 \<le> q" "q < n"
  shows "undirected [idx n r p, idx n r q] = ring_edge n (r, min p q, r, max p q)"
  by (simp add: undirected_def ring_edge_def idx_def min_def max_def)

lemma bottom_face_edges:
  assumes "0 \<le> jj" "jj < n"
  shows "edge_set [[idx n r jj, idx n (r + 1) (nxt n jj), idx n (r + 1) jj]] =
         ring_edge n ` {(r, jj, r + 1, nxt n jj),
                        (r + 1, min jj (nxt n jj), r + 1, max jj (nxt n jj)),
                        (r, jj, r + 1, jj)}"
proof -
  have n: "0 < n" using assms by simp
  note nx = nxt_range [OF n, of jj]
  show ?thesis
    by (simp add: edge_set_def triangle_sides_def undirected_up [OF assms nx]
          undirected_up [OF assms assms] undirected_same [OF nx assms] min.commute max.commute)
qed

lemma quad_edges:
  assumes "0 \<le> ii" "ii < n"
  shows "edge_set [[idx n r ii, idx n r (nxt n ii), idx n (r + 1) (nxt n ii)],
                   [idx n r ii, idx n (r + 1) (nxt n ii), idx n (r + 1) ii]] =
         ring_edge n ` {(r, min ii (nxt n ii), r, max ii (nxt n ii)),
                        (r, nxt n ii, r + 1, nxt n ii),
                        (r, ii, r + 1, nxt n ii),
                        (r + 1, min ii (nxt n ii), r + 1, max ii (nxt n ii)),
                        (r, ii, r + 1, ii)}"
proof -
  have n: "0 < n" using assms by simp
  note nx = nxt_range [OF n, of ii]
  show ?thesis
    by (simp add: edge_set_def triangle_sides_def undirected_up [OF assms nx]
          undirected_up [OF assms assms] undirected_up [OF nx nx]
          undirected_same [OF nx assms] undirected_same [OF assms nx]
          min.commute max.commute insert_commute)
qed

lemma top_face_edges:
  assumes "0 \<le> ii" "ii < n"
  shows "edge_set [[idx n r ii, idx n r (nxt n ii), idx n (r + 1) 0]] =
         ring_edge n ` {(r, min ii (nxt n ii), r, max ii (nxt n ii)),
                        (r, nxt n ii, r + 1, 0),
                        (r, ii, r + 1, 0)}"
proof -
  have n: "0 < n" using assms by simp
  note nx = nxt_range [OF n, of ii]
  have z: "(0::int) \<le> 0" by simp
  show ?thesis
    by (simp add: edge_set_def triangle_sides_def undirected_up [OF assms z n]
          undirected_up [OF nx z n] undirected_same [OF assms nx])
qed


lemma fan_bottom_edges:
  assumes "0 < n"
  shows "edge_set (fan_bottom n (r * n)) =
         ring_edge n ` (X_diag {r} n \<union> X_ring {r + 1} n \<union> X_vert {r} n)"
proof -
  have f: "fan_bottom n (r * n) =
           map (\<lambda>jj. [idx n r jj, idx n (r + 1) (nxt n jj), idx n (r + 1) jj]) (range1 n)"
    by (simp add: fan_bottom_def idx_def nxt_def algebra_simps)
  have "edge_set (fan_bottom n (r * n)) =
        (\<Union>jj\<in>{0..<n}. ring_edge n ` {(r, jj, r + 1, nxt n jj),
                        (r + 1, min jj (nxt n jj), r + 1, max jj (nxt n jj)),
                        (r, jj, r + 1, jj)})"
    unfolding f edge_set_map set_range1 by (intro SUP_cong refl bottom_face_edges) simp_all
  also have "\<dots> = ring_edge n ` (\<Union>jj\<in>{0..<n}. {(r, jj, r + 1, nxt n jj),
                        (r + 1, min jj (nxt n jj), r + 1, max jj (nxt n jj)),
                        (r, jj, r + 1, jj)})"
    by (simp only: image_UN)
  also have "(\<Union>jj\<in>{0..<n}. {(r, jj, r + 1, nxt n jj),
                        (r + 1, min jj (nxt n jj), r + 1, max jj (nxt n jj)),
                        (r, jj, r + 1, jj)}) =
             X_diag {r} n \<union> X_ring {r + 1} n \<union> X_vert {r} n"
    by (auto simp: X_diag_def X_ring_def X_vert_def)
  finally show ?thesis .
qed

lemma segment_edges:
  assumes "0 < n"
  shows "edge_set (segment_faces n (r * n)) =
         ring_edge n ` (X_ring {r} n \<union> X_vert {r} n \<union> X_diag {r} n \<union> X_ring {r + 1} n)"
proof -
  have q: "quad_faces n (r * n) ii =
           [[idx n r ii, idx n r (nxt n ii), idx n (r + 1) (nxt n ii)],
            [idx n r ii, idx n (r + 1) (nxt n ii), idx n (r + 1) ii]]" for ii
    by (simp add: quad_faces_def idx_def nxt_def algebra_simps)
  have "edge_set (segment_faces n (r * n)) =
        (\<Union>ii\<in>{0..<n}. ring_edge n ` {(r, min ii (nxt n ii), r, max ii (nxt n ii)),
                        (r, nxt n ii, r + 1, nxt n ii),
                        (r, ii, r + 1, nxt n ii),
                        (r + 1, min ii (nxt n ii), r + 1, max ii (nxt n ii)),
                        (r, ii, r + 1, ii)})"
    unfolding segment_faces_def edge_set_concat set_range1 q
    by (intro SUP_cong refl quad_edges) simp_all
  also have "\<dots> = ring_edge n ` (\<Union>ii\<in>{0..<n}. {(r, min ii (nxt n ii), r, max ii (nxt n ii)),
                        (r, nxt n ii, r + 1, nxt n ii),
                        (r, ii, r + 1, nxt n ii),
                        (r + 1, min ii (nxt n ii), r + 1, max ii (nxt n ii)),
                        (r, ii, r + 1, ii)})"
    by (simp only: image_UN)
  also have "(\<Union>ii\<in>{0..<n}. {(r, min ii (nxt n ii), r, max ii (nxt n ii)),
                        (r, nxt n ii, r + 1, nxt n ii),
                        (r, ii, r + 1, nxt n ii),
                        (r + 1, min ii (nxt n ii), r + 1, max ii (nxt n ii)),
                        (r, ii, r + 1, ii)}) =
             X_ring {r} n \<union> X_vert {r} n \<union> X_diag {r} n \<union> X_ring {r + 1} n"
    using nxt_range [OF assms]
    by (auto simp: X_diag_def X_ring_def X_vert_def)
  finally show ?thesis .
qed

lemma fan_top_edges:
  assumes "0 < n"
  shows "edge_set (fan_top n (r * n)) = ring_edge n ` (X_ring {r} n \<union> X_spoke r n)"
proof -
  have f: "fan_top n (r * n) =
           map (\<lambda>ii. [idx n r ii, idx n r (nxt n ii), idx n (r + 1) 0]) (range1 n)"
    by (simp add: fan_top_def idx_def nxt_def algebra_simps)
  have "edge_set (fan_top n (r * n)) =
        (\<Union>ii\<in>{0..<n}. ring_edge n ` {(r, min ii (nxt n ii), r, max ii (nxt n ii)),
                        (r, nxt n ii, r + 1, 0),
                        (r, ii, r + 1, 0)})"
    unfolding f edge_set_map set_range1 by (intro SUP_cong refl top_face_edges) simp_all
  also have "\<dots> = ring_edge n ` (\<Union>ii\<in>{0..<n}. {(r, min ii (nxt n ii), r, max ii (nxt n ii)),
                        (r, nxt n ii, r + 1, 0),
                        (r, ii, r + 1, 0)})"
    by (simp only: image_UN)
  also have "(\<Union>ii\<in>{0..<n}. {(r, min ii (nxt n ii), r, max ii (nxt n ii)),
                        (r, nxt n ii, r + 1, 0),
                        (r, ii, r + 1, 0)}) =
             X_ring {r} n \<union> X_spoke r n"
    using nxt_range [OF assms]
    by (auto simp: X_ring_def X_spoke_def)
  finally show ?thesis .
qed


lemma segment_rings:
  assumes "1 \<le> m"
  shows "(\<Union>k\<in>{0..<nat m}. {2 + int k}) = {2..m + 1}"
    and "{1} \<union> (\<Union>k\<in>{0..<nat m}. {2 + int k, 3 + int k}) \<union> {m + 3} = {1..m + 3}"
proof -
  show "(\<Union>k\<in>{0..<nat m}. {2 + int k}) = {2..m + 1}"
  proof (intro set_eqI iffI)
    fix r assume "r \<in> {2..m + 1}"
    then have "nat (r - 2) \<in> {0..<nat m}" "r \<in> {2 + int (nat (r - 2))}" by auto
    then show "r \<in> (\<Union>k\<in>{0..<nat m}. {2 + int k})" by blast
  qed auto
  show "{1} \<union> (\<Union>k\<in>{0..<nat m}. {2 + int k, 3 + int k}) \<union> {m + 3} = {1..m + 3}"
  proof (intro set_eqI iffI)
    fix r assume r: "r \<in> {1..m + 3}"
    show "r \<in> {1} \<union> (\<Union>k\<in>{0..<nat m}. {2 + int k, 3 + int k}) \<union> {m + 3}"
    proof (cases "r = 1 \<or> r = m + 3")
      case True
      then show ?thesis by auto
    next
      case False
      with r have "nat (r - 3) \<in> {0..<nat m} \<or> r = 2" by auto
      then show ?thesis
      proof
        assume k: "nat (r - 3) \<in> {0..<nat m}"
        show ?thesis
        proof (cases "r = 2")
          case True
          with k have "0 \<in> {0..<nat m}" "r \<in> {2 + int 0, 3 + int 0}" by auto
          then show ?thesis by blast
        next
          case False
          with r \<open>\<not> (r = 1 \<or> r = m + 3)\<close>
          have "r \<in> {2 + int (nat (r - 3)), 3 + int (nat (r - 3))}" by auto
          with k show ?thesis by blast
        qed
      next
        assume r2: "r = 2"
        with r False assms have "0 \<in> {0..<nat m}" "r \<in> {2 + int 0, 3 + int 0}" by auto
        then show ?thesis by blast
      qed
    qed
  qed (use assms in auto)
qed

lemma X_Un:
  "X_diag (A \<union> B) n = X_diag A n \<union> X_diag B n"
  "X_vert (A \<union> B) n = X_vert A n \<union> X_vert B n"
  "X_ring (A \<union> B) n = X_ring A n \<union> X_ring B n"
  by (auto simp: X_diag_def X_vert_def X_ring_def)

lemma X_UN:
  "X_diag (\<Union>k\<in>K. R k) n = (\<Union>k\<in>K. X_diag (R k) n)"
  "X_vert (\<Union>k\<in>K. R k) n = (\<Union>k\<in>K. X_vert (R k) n)"
  "X_ring (\<Union>k\<in>K. R k) n = (\<Union>k\<in>K. X_ring (R k) n)"
  by (auto simp: X_diag_def X_vert_def X_ring_def)

lemma X_ring_pair: "X_ring {a, b} n = X_ring {a} n \<union> X_ring {b} n"
  by (auto simp: X_ring_def)

lemma cylinder_edge_set:
  assumes "0 < n" "1 \<le> m"
  shows "edge_set (fan_bottom n 0 @
           concat (map (\<lambda>k. segment_faces n (n * 2 + int k * n)) [0..<nat m]) @
           fan_top n (n * 2 + m * n + n)) =
         ring_edge n ` cylinder_edges n m"
proof -
  have s: "segment_faces n (n * 2 + int k * n) = segment_faces n ((2 + int k) * n)" for k
    by (simp add: algebra_simps)
  have s1: "2 + int k + 1 = 3 + int k" for k by simp
  have t: "fan_top n (n * 2 + m * n + n) = fan_top n ((m + 3) * n)"
    by (simp add: algebra_simps)
  have eb: "edge_set (fan_bottom n 0) =
            ring_edge n ` (X_diag {0} n \<union> X_ring {1} n \<union> X_vert {0} n)"
    using fan_bottom_edges [OF assms(1), of 0] by simp
  have es: "edge_set (segment_faces n (n * 2 + int k * n)) =
            ring_edge n ` (X_ring {2 + int k} n \<union> X_vert {2 + int k} n \<union>
               X_diag {2 + int k} n \<union> X_ring {3 + int k} n)" for k
    unfolding s using segment_edges [OF assms(1), of "2 + int k"] by (simp only: s1)
  have et: "edge_set (fan_top n (n * 2 + m * n + n)) =
            ring_edge n ` (X_ring {m + 3} n \<union> X_spoke (m + 3) n)"
    unfolding t by (rule fan_top_edges [OF assms(1)])
  have "edge_set (fan_bottom n 0 @
           concat (map (\<lambda>k. segment_faces n (n * 2 + int k * n)) [0..<nat m]) @
           fan_top n (n * 2 + m * n + n)) =
        ring_edge n ` (X_diag {0} n \<union> X_ring {1} n \<union> X_vert {0} n \<union>
          (\<Union>k\<in>{0..<nat m}. X_ring {2 + int k} n \<union> X_vert {2 + int k} n \<union>
               X_diag {2 + int k} n \<union> X_ring {3 + int k} n) \<union>
          (X_ring {m + 3} n \<union> X_spoke (m + 3) n))"
    unfolding edge_set_append edge_set_concat eb es et
    by (simp add: image_Un image_UN Un_assoc)
  also have "X_diag {0} n \<union> X_ring {1} n \<union> X_vert {0} n \<union>
          (\<Union>k\<in>{0..<nat m}. X_ring {2 + int k} n \<union> X_vert {2 + int k} n \<union>
               X_diag {2 + int k} n \<union> X_ring {3 + int k} n) \<union>
          (X_ring {m + 3} n \<union> X_spoke (m + 3) n) = cylinder_edges n m"
    unfolding cylinder_edges_def segment_rings [OF assms(2), symmetric] X_Un X_UN X_ring_pair
    by blast
  finally show ?thesis .
qed


lemma cylinder_edges_valid:
  assumes "0 < n" and "e \<in> cylinder_edges n m"
  obtains r p r' q where "e = (r, p, r', q)" "0 \<le> p" "p < n" "0 \<le> q" "q < n"
proof -
  have "\<exists>r p r' q. e = (r, p, r', q) \<and> 0 \<le> p \<and> p < n \<and> 0 \<le> q \<and> q < n"
    using assms(2) nxt_range [OF assms(1)] assms(1)
    by (auto simp: cylinder_edges_def X_diag_def X_vert_def X_ring_def X_spoke_def
          min_def max_def)
  then show ?thesis using that by blast
qed

lemma ring_edge_inj: 
  assumes "0 < n"
  shows "inj_on (ring_edge n) (cylinder_edges n m)"
proof (rule inj_onI)
  fix e e' assume e: "e \<in> cylinder_edges n m" and e': "e' \<in> cylinder_edges n m"
    and eq: "ring_edge n e = ring_edge n e'"
  obtain r p r' q where 1: "e = (r, p, r', q)" "0 \<le> p" "p < n" "0 \<le> q" "q < n"
    using cylinder_edges_valid [OF assms e] by blast
  obtain s u s' v where 2: "e' = (s, u, s', v)" "0 \<le> u" "u < n" "0 \<le> v" "v < n"
    using cylinder_edges_valid [OF assms e'] by blast
  from eq have "idx n r p = idx n s u" "idx n r' q = idx n s' v"
    by (simp_all add: ring_edge_def 1(1) 2(1))
  then have "r = s \<and> p = u" "r' = s' \<and> q = v"
    using idx_eq_iff [OF 1(2,3) 2(2,3)] idx_eq_iff [OF 1(4,5) 2(4,5)] by simp_all
  then show "e = e'" by (simp add: 1(1) 2(1))
qed

lemma card_X_diag:
  assumes "finite R"
  shows "card (X_diag R n) = card R * nat n"
proof -
  have "inj_on (\<lambda>(r, p). (r, p, r + 1, nxt n p)) (R \<times> {0..<n})"
    by (auto simp: inj_on_def)
  then show ?thesis by (simp add: X_diag_def card_image card_cartesian_product)
qed

lemma card_X_vert:
  assumes "finite R"
  shows "card (X_vert R n) = card R * nat n"
proof -
  have "inj_on (\<lambda>(r, p). (r, p, r + 1, p)) (R \<times> {0..<n})"
    by (auto simp: inj_on_def)
  then show ?thesis by (simp add: X_vert_def card_image card_cartesian_product)
qed

lemma card_X_spoke: "card (X_spoke r n) = nat n"
proof -
  have "inj_on (\<lambda>p. (r, p, r + 1, 0::int)) {0..<n}"
    by (auto simp: inj_on_def)
  then show ?thesis by (simp add: X_spoke_def card_image)
qed

lemma ring_pair_inj:
  assumes "3 \<le> n" "0 \<le> p" "p < n" "0 \<le> q" "q < n"
    and "min p (nxt n p) = min q (nxt n q)" "max p (nxt n p) = max q (nxt n q)"
  shows "p = q"
  using assms(1,6,7) unfolding nxt_eq [OF assms(2,3)] nxt_eq [OF assms(4,5)]
  by (auto simp: min_def max_def split: if_splits)

lemma card_X_ring:
  assumes "3 \<le> n" "finite R"
  shows "card (X_ring R n) = card R * nat n"
proof -
  have "inj_on (\<lambda>(r, p). (r, min p (nxt n p), r, max p (nxt n p))) (R \<times> {0..<n})"
    using ring_pair_inj [OF assms(1)] by (auto simp: inj_on_def)
  then show ?thesis by (simp add: X_ring_def card_image card_cartesian_product)
qed

lemma finite_X:
  assumes "finite R"
  shows "finite (X_diag R n)" "finite (X_vert R n)" "finite (X_ring R n)" "finite (X_spoke r n)"
  using assms by (simp_all add: X_diag_def X_vert_def X_ring_def X_spoke_def)

lemma card_cylinder_edges:
  assumes "3 \<le> n" "1 \<le> m"
  shows "card (cylinder_edges n m) = (3 * nat m + 6) * nat n"
proof -
  define R where "R = {0} \<union> {2..m + 1}"
  define D where "D = X_diag R n"
  define V where "V = X_vert R n"
  define G where "G = X_ring {1..m + 3} n"
  define S where "S = X_spoke (m + 3) n"
  have n: "0 < n" using assms by simp
  have finR: "finite R" "finite {1..m + 3}" by (simp_all add: R_def)
  have fin: "finite D" "finite V" "finite G" "finite S"
    unfolding D_def V_def G_def S_def
    by (simp_all add: finite_X [OF finR(1)] finite_X [OF finR(2)])
  have cardR: "card R = nat m + 1" "card {1..m + 3} = nat m + 3"
    using assms(2) by (simp_all add: R_def)
  have nx: "nxt n p \<noteq> p" if "0 \<le> p" "p < n" for p
    using that assms(1) by (simp add: nxt_eq)
  have d1: "D \<inter> V = {}"
    using nx by (auto simp: D_def V_def X_diag_def X_vert_def)
  have d2: "(D \<union> V) \<inter> G = {}"
    by (auto simp: D_def V_def G_def X_diag_def X_vert_def X_ring_def)
  have d3: "(D \<union> V \<union> G) \<inter> S = {}"
    using assms(2)
    by (auto simp: D_def V_def G_def S_def R_def X_diag_def X_vert_def X_ring_def X_spoke_def)
  have "card (cylinder_edges n m) = card (D \<union> V \<union> G \<union> S)"
    by (simp only: cylinder_edges_def D_def V_def G_def S_def R_def)
  also have "\<dots> = card (D \<union> V \<union> G) + card S"
    by (rule card_Un_disjoint) (use fin d3 in simp_all)
  also have "card (D \<union> V \<union> G) = card (D \<union> V) + card G"
    by (rule card_Un_disjoint) (use fin d2 in simp_all)
  also have "card (D \<union> V) = card D + card V"
    by (rule card_Un_disjoint) (use fin d1 in simp_all)
  also have "card D = card R * nat n"
    unfolding D_def by (rule card_X_diag [OF finR(1)])
  also have "card V = card R * nat n"
    unfolding V_def by (rule card_X_vert [OF finR(1)])
  also have "card G = card {1..m + 3} * nat n"
    unfolding G_def by (rule card_X_ring [OF assms(1) finR(2)])
  also have "card S = nat n"
    unfolding S_def by (rule card_X_spoke)
  finally show ?thesis
    using assms(2) by (simp add: cardR nat_add_distrib algebra_simps)
qed

lemma cylinder_edge_count:
  assumes "3 \<le> n" "1 \<le> m"
  shows "length (remdups (map undirected (concat (map triangle_sides
           (fan_bottom n 0 @
            concat (map (\<lambda>k. segment_faces n (n * 2 + int k * n)) [0..<nat m]) @
            fan_top n (n * 2 + m * n + n)))))) = (3 * nat m + 6) * nat n"
proof -
  have n: "0 < n" using assms by simp
  have "length (remdups (map undirected (concat (map triangle_sides
           (fan_bottom n 0 @
            concat (map (\<lambda>k. segment_faces n (n * 2 + int k * n)) [0..<nat m]) @
            fan_top n (n * 2 + m * n + n)))))) =
        card (edge_set (fan_bottom n 0 @
            concat (map (\<lambda>k. segment_faces n (n * 2 + int k * n)) [0..<nat m]) @
            fan_top n (n * 2 + m * n + n)))"
    unfolding edge_set_def by (rule length_remdups_card_conv)
  also have "\<dots> = card (cylinder_edges n m)"
    unfolding cylinder_edge_set [OF n assms(2)] by (rule card_image [OF ring_edge_inj [OF n]])
  finally show ?thesis by (simp add: card_cylinder_edges [OF assms])
qed


lemma no_zero_no_edge:
  assumes "1 \<le> a" "1 \<le> b" "1 \<le> c"
  shows "[0, x] \<notin> set (map undirected (triangle_sides [a, b, c]))"
  using assms by (simp add: triangle_sides_def undirected_def min_def)

lemma range1_Cons: "0 < n \<Longrightarrow> range1 n = 0 # [1..n - 1]"
  by (simp add: range1_def upto_rec1 [of 0])

lemma fan_bottom_rest_no_edge:
  assumes "0 < n"
  shows "filter (\<lambda>f. [0, x] \<in> set (map undirected (triangle_sides f)))
           (map (\<lambda>jj. [0 + jj, 0 + n + (jj + 1) mod n, 0 + n + jj]) [1..n - 1]) = []"
proof -
  have "[0, x] \<notin> set (map undirected (triangle_sides [0 + jj, 0 + n + (jj + 1) mod n, 0 + n + jj]))"
    if "jj \<in> set [1..n - 1]" for jj
  proof -
    obtain nx where nx: "(jj + 1) mod n = nx" "0 \<le> nx" "nx < n"
      using next_index [OF assms] by blast
    show ?thesis unfolding nx(1) using that nx(2) assms by (intro no_zero_no_edge) simp_all
  qed
  then show ?thesis by (simp add: filter_empty_conv)
qed

lemma segment_no_edge:
  assumes "0 < n" "1 \<le> s"
  shows "filter (\<lambda>f. [0, x] \<in> set (map undirected (triangle_sides f))) (segment_faces n s) = []"
proof -
  have "filter (\<lambda>f. [0, x] \<in> set (map undirected (triangle_sides f))) (quad_faces n s ii) = []"
    if "ii \<in> set (range1 n)" for ii
  proof -
    obtain nx where nx: "(ii + 1) mod n = nx" "0 \<le> nx" "nx < n"
      using next_index [OF assms(1)] by blast
    have q: "quad_faces n s ii = [[s + ii, s + nx, s + n + nx], [s + ii, s + n + nx, s + n + ii]]"
      by (simp add: quad_faces_def nx(1))
    have ii: "0 \<le> ii" using that by (simp add: set_range1)
    have "[0, x] \<notin> set (map undirected (triangle_sides [s + ii, s + nx, s + n + nx]))"
      using ii nx(2) assms by (intro no_zero_no_edge) simp_all
    moreover have "[0, x] \<notin> set (map undirected (triangle_sides [s + ii, s + n + nx, s + n + ii]))"
      using ii nx(2) assms by (intro no_zero_no_edge) simp_all
    ultimately show ?thesis unfolding q by simp
  qed
  then show ?thesis unfolding segment_faces_def by (rule filter_concat_map_Nil)
qed

lemma fan_top_no_edge:
  assumes "0 < n" "1 \<le> s"
  shows "filter (\<lambda>f. [0, x] \<in> set (map undirected (triangle_sides f))) (fan_top n s) = []"
proof -
  have "[0, x] \<notin> set (map undirected (triangle_sides [s + ii, s + (ii + 1) mod n, s + n]))"
    if "ii \<in> set (range1 n)" for ii
  proof -
    obtain nx where nx: "(ii + 1) mod n = nx" "0 \<le> nx" "nx < n"
      using next_index [OF assms(1)] by blast
    have ii: "0 \<le> ii" using that by (simp add: set_range1)
    show ?thesis unfolding nx(1) using ii nx(2) assms by (intro no_zero_no_edge) simp_all
  qed
  then show ?thesis by (simp add: fan_top_def filter_empty_conv)
qed

lemma cylinder_first_edge:
  assumes "3 \<le> n" "1 \<le> m"
  shows "length (filter (\<lambda>f. [0, n] \<in> set (map undirected (triangle_sides f)))
           (fan_bottom n 0 @
            concat (map (\<lambda>k. segment_faces n (n * 2 + int k * n)) [0..<nat m]) @
            fan_top n (n * 2 + m * n + n))) = 1"
proof -
  let ?P = "\<lambda>f. [0, n] \<in> set (map undirected (triangle_sides f))"
  have n: "0 < n" using assms by simp
  have first: "?P [0 + 0, 0 + n + (0 + 1) mod n, 0 + n + 0]"
    using assms(1) by (simp add: triangle_sides_def undirected_def)
  have bot: "filter ?P (fan_bottom n 0) = [[0 + 0, 0 + n + (0 + 1) mod n, 0 + n + 0]]"
    unfolding fan_bottom_def range1_Cons [OF n] list.map filter.simps
    using first fan_bottom_rest_no_edge [OF n, of n] by simp
  have seg: "filter ?P (segment_faces n (n * 2 + int k * n)) = []" for k
  proof -
    have "0 \<le> int k * n" using n by simp
    then have "1 \<le> n * 2 + int k * n" using n by linarith
    then show ?thesis by (rule segment_no_edge [OF n])
  qed
  have segs: "filter ?P (concat (map (\<lambda>k. segment_faces n (n * 2 + int k * n)) [0..<nat m])) = []"
    by (rule filter_concat_map_Nil) (rule seg)
  have "0 \<le> m * n" using n assms(2) by simp
  then have "1 \<le> n * 2 + m * n + n" using n by linarith
  then have top: "filter ?P (fan_top n (n * 2 + m * n + n)) = []"
    by (rule fan_top_no_edge [OF n])
  show ?thesis unfolding filter_append bot segs top by simp
qed


lemma faces_le_sides:
  "length (filter (\<lambda>f. e \<in> set (map undirected (triangle_sides f))) fs) \<le>
   length (filter (\<lambda>s. undirected s = e) (concat (map triangle_sides fs)))"
proof (induction fs)
  case Nil
  then show ?case by simp
next
  case (Cons f fs)
  have "1 \<le> length (filter (\<lambda>s. undirected s = e) (triangle_sides f))"
    if "e \<in> set (map undirected (triangle_sides f))"
  proof -
    from that have "filter (\<lambda>s. undirected s = e) (triangle_sides f) \<noteq> []"
      by (auto simp: filter_empty_conv)
    then show ?thesis by (cases "filter (\<lambda>s. undirected s = e) (triangle_sides f)") simp_all
  qed
  with Cons.IH show ?case by auto
qed

lemma undirected_preimage:
  assumes "length s = 2" "undirected s = e"
  shows "s = e \<or> s = rev e"
proof -
  obtain a b where s: "s = [a, b]"
    using assms(1) by (cases s; cases "tl s") auto
  show ?thesis
  proof (cases "a \<le> b")
    case True
    then show ?thesis using assms(2) unfolding s by (simp add: undirected_def)
  next
    case False
    then show ?thesis using assms(2) unfolding s by (auto simp: undirected_def)
  qed
qed

lemma length_triangle_side: "s \<in> set (concat (map triangle_sides fs)) \<Longrightarrow> length s = 2"
  by (auto simp: triangle_sides_def)

lemma sides_of_edge_le_2:
  assumes "distinct (concat (map triangle_sides fs))"
  shows "length (filter (\<lambda>s. undirected s = e) (concat (map triangle_sides fs))) \<le> 2"
proof -
  let ?M = "filter (\<lambda>s. undirected s = e) (concat (map triangle_sides fs))"
  have "distinct ?M" using assms by simp
  then have "length ?M = card (set ?M)" by (rule distinct_card [symmetric])
  also have "set ?M \<subseteq> {e, rev e}"
    using undirected_preimage length_triangle_side by fastforce
  then have "card (set ?M) \<le> card {e, rev e}" by (intro card_mono) simp_all
  also have "\<dots> \<le> 2" by (simp add: card_insert_le_m1)
  finally show ?thesis .
qed

lemma triangles_at_edge_bounds:
  assumes "distinct (concat (map triangle_sides (faces g)))"
    and "e \<in> set (map undirected (concat (map triangle_sides (faces g))))"
  shows "1 \<le> triangles_at_edge g e" and "triangles_at_edge g e \<le> 2"
proof -
  from assms(2) obtain f where "f \<in> set (faces g)" "e \<in> set (map undirected (triangle_sides f))"
    by auto
  then have "filter (\<lambda>f. e \<in> set (map undirected (triangle_sides f))) (faces g) \<noteq> []"
    by (auto simp: filter_empty_conv)
  then show "1 \<le> triangles_at_edge g e"
    unfolding triangles_at_edge_def
    by (cases "filter (\<lambda>f. e \<in> set (map undirected (triangle_sides f))) (faces g)") simp_all
  show "triangles_at_edge g e \<le> 2"
    unfolding triangles_at_edge_def
    using faces_le_sides [of e "faces g"] sides_of_edge_le_2 [OF assms(1), of e] by linarith
qed


lemma nxt_surj:
  assumes "0 \<le> p" "p < n"
  shows "\<exists>ii. 0 \<le> ii \<and> ii < n \<and> nxt n ii = p"
proof (cases "p = 0")
  case True
  have "nxt n (n - 1) = 0" using assms by (simp add: nxt_eq)
  then show ?thesis using True assms by (intro exI [where x = "n - 1"]) simp
next
  case False
  have "nxt n (p - 1) = p" using assms False by (simp add: nxt_eq)
  then show ?thesis using False assms by (intro exI [where x = "p - 1"]) simp
qed

lemma side_set_append: "side_set (xs @ ys) = side_set xs \<union> side_set ys"
  by (simp add: side_set_def)

lemma side_set_concat: "side_set (concat (map f ks)) = (\<Union>k\<in>set ks. side_set (f k))"
  by (induction ks) (simp_all add: side_set_append, simp add: side_set_def)

lemma side_set_map: "side_set (map f ks) = (\<Union>k\<in>set ks. side_set [f k])"
  by (induction ks) (simp_all add: side_set_def)

lemma side_set_triangle:
  "side_set [[idx n r p, idx n r' q, idx n r'' u]] =
   ring_edge n ` {(r, p, r', q), (r', q, r'', u), (r'', u, r, p)}"
  by (simp add: side_set_def triangle_sides_def ring_edge_def)

lemma side_set_two:
  "side_set [f, f'] = side_set [f] \<union> side_set [f']"
  by (simp add: side_set_def)

lemma fan_bottom_sides:
  assumes "0 < n"
  shows "side_set (fan_bottom n (r * n)) =
         ring_edge n ` (X_diag {r} n \<union> Y_back {r + 1} n \<union> Y_down_vert {r} n)"
proof -
  have f: "fan_bottom n (r * n) =
           map (\<lambda>jj. [idx n r jj, idx n (r + 1) (nxt n jj), idx n (r + 1) jj]) (range1 n)"
    by (simp add: fan_bottom_def idx_def nxt_def algebra_simps)
  have "side_set (fan_bottom n (r * n)) =
        ring_edge n ` (\<Union>jj\<in>{0..<n}. {(r, jj, r + 1, nxt n jj),
                        (r + 1, nxt n jj, r + 1, jj), (r + 1, jj, r, jj)})"
    unfolding f side_set_map set_range1 side_set_triangle by (simp only: image_UN)
  also have "(\<Union>jj\<in>{0..<n}. {(r, jj, r + 1, nxt n jj),
                        (r + 1, nxt n jj, r + 1, jj), (r + 1, jj, r, jj)}) =
             X_diag {r} n \<union> Y_back {r + 1} n \<union> Y_down_vert {r} n"
    by (auto simp: X_diag_def Y_back_def Y_down_vert_def)
  finally show ?thesis .
qed

lemma segment_sides:
  assumes "0 < n"
  shows "side_set (segment_faces n (r * n)) =
         ring_edge n ` (Y_fwd {r} n \<union> X_vert {r} n \<union> Y_down_diag {r} n \<union>
                        X_diag {r} n \<union> Y_back {r + 1} n \<union> Y_down_vert {r} n)"
proof -
  have q: "quad_faces n (r * n) ii =
           [[idx n r ii, idx n r (nxt n ii), idx n (r + 1) (nxt n ii)],
            [idx n r ii, idx n (r + 1) (nxt n ii), idx n (r + 1) ii]]" for ii
    by (simp add: quad_faces_def idx_def nxt_def algebra_simps)
  have "side_set (segment_faces n (r * n)) =
        ring_edge n ` (\<Union>ii\<in>{0..<n}.
          {(r, ii, r, nxt n ii), (r, nxt n ii, r + 1, nxt n ii), (r + 1, nxt n ii, r, ii)} \<union>
          {(r, ii, r + 1, nxt n ii), (r + 1, nxt n ii, r + 1, ii), (r + 1, ii, r, ii)})"
    unfolding segment_faces_def side_set_concat set_range1 q side_set_two side_set_triangle
    by (simp only: image_UN image_Un)
  also have "(\<Union>ii\<in>{0..<n}.
          {(r, ii, r, nxt n ii), (r, nxt n ii, r + 1, nxt n ii), (r + 1, nxt n ii, r, ii)} \<union>
          {(r, ii, r + 1, nxt n ii), (r + 1, nxt n ii, r + 1, ii), (r + 1, ii, r, ii)}) =
        Y_fwd {r} n \<union> X_vert {r} n \<union> Y_down_diag {r} n \<union>
        X_diag {r} n \<union> Y_back {r + 1} n \<union> Y_down_vert {r} n"
    (is "?L = ?R")
  proof (intro set_eqI iffI)
    fix t assume "t \<in> ?L"
    then show "t \<in> ?R"
      using nxt_range [OF assms]
      by (auto simp: X_diag_def X_vert_def Y_fwd_def Y_back_def Y_down_vert_def Y_down_diag_def)
  next
    fix t assume t: "t \<in> ?R"
    show "t \<in> ?L"
    proof (cases "t \<in> X_vert {r} n")
      case True
      then obtain p where p: "0 \<le> p" "p < n" "t = (r, p, r + 1, p)"
        by (auto simp: X_vert_def)
      obtain ii where ii: "0 \<le> ii" "ii < n" "nxt n ii = p"
        using nxt_surj [OF p(1,2)] by blast
      then have "t = (r, nxt n ii, r + 1, nxt n ii)" using p(3) by simp
      then show ?thesis using ii(1,2) by auto
    next
      case False
      with t show ?thesis
        by (auto simp: X_diag_def Y_fwd_def Y_back_def Y_down_vert_def Y_down_diag_def)
    qed
  qed
  finally show ?thesis .
qed

lemma fan_top_sides:
  assumes "0 < n"
  shows "side_set (fan_top n (r * n)) =
         ring_edge n ` (Y_fwd {r} n \<union> X_spoke r n \<union> Y_down_spoke r n)"
proof -
  have f: "fan_top n (r * n) =
           map (\<lambda>ii. [idx n r ii, idx n r (nxt n ii), idx n (r + 1) 0]) (range1 n)"
    by (simp add: fan_top_def idx_def nxt_def algebra_simps)
  have "side_set (fan_top n (r * n)) =
        ring_edge n ` (\<Union>ii\<in>{0..<n}. {(r, ii, r, nxt n ii),
                        (r, nxt n ii, r + 1, 0), (r + 1, 0, r, ii)})"
    unfolding f side_set_map set_range1 side_set_triangle by (simp only: image_UN)
  also have "(\<Union>ii\<in>{0..<n}. {(r, ii, r, nxt n ii),
                        (r, nxt n ii, r + 1, 0), (r + 1, 0, r, ii)}) =
             Y_fwd {r} n \<union> X_spoke r n \<union> Y_down_spoke r n"
    (is "?L = ?R")
  proof (intro set_eqI iffI)
    fix t assume "t \<in> ?L"
    then show "t \<in> ?R"
      using nxt_range [OF assms] by (auto simp: Y_fwd_def X_spoke_def Y_down_spoke_def)
  next
    fix t assume t: "t \<in> ?R"
    show "t \<in> ?L"
    proof (cases "t \<in> X_spoke r n")
      case True
      then obtain p where p: "0 \<le> p" "p < n" "t = (r, p, r + 1, 0)"
        by (auto simp: X_spoke_def)
      obtain ii where ii: "0 \<le> ii" "ii < n" "nxt n ii = p"
        using nxt_surj [OF p(1,2)] by blast
      then have "t = (r, nxt n ii, r + 1, 0)" using p(3) by simp
      then show ?thesis using ii(1,2) by auto
    next
      case False
      with t show ?thesis by (auto simp: Y_fwd_def Y_down_spoke_def)
    qed
  qed
  finally show ?thesis .
qed


lemma segment_rings_up:
  "(\<Union>k\<in>{0..<nat m}. {3 + int k}) = {3..m + 2}"
proof (intro set_eqI iffI)
  fix r assume "r \<in> {3..m + 2}"
  then have "nat (r - 3) \<in> {0..<nat m}" "r \<in> {3 + int (nat (r - 3))}" by auto
  then show "r \<in> (\<Union>k\<in>{0..<nat m}. {3 + int k})" by blast
qed auto

lemma Y_Un:
  "Y_down_vert (A \<union> B) n = Y_down_vert A n \<union> Y_down_vert B n"
  "Y_down_diag (A \<union> B) n = Y_down_diag A n \<union> Y_down_diag B n"
  "Y_fwd (A \<union> B) n = Y_fwd A n \<union> Y_fwd B n"
  "Y_back (A \<union> B) n = Y_back A n \<union> Y_back B n"
  by (auto simp: Y_down_vert_def Y_down_diag_def Y_fwd_def Y_back_def)

lemma Y_UN:
  "Y_down_vert (\<Union>k\<in>K. R k) n = (\<Union>k\<in>K. Y_down_vert (R k) n)"
  "Y_down_diag (\<Union>k\<in>K. R k) n = (\<Union>k\<in>K. Y_down_diag (R k) n)"
  "Y_fwd (\<Union>k\<in>K. R k) n = (\<Union>k\<in>K. Y_fwd (R k) n)"
  "Y_back (\<Union>k\<in>K. R k) n = (\<Union>k\<in>K. Y_back (R k) n)"
  by (auto simp: Y_down_vert_def Y_down_diag_def Y_fwd_def Y_back_def)

lemma cylinder_side_set:
  assumes "0 < n" "1 \<le> m"
  shows "side_set (fan_bottom n 0 @
           concat (map (\<lambda>k. segment_faces n (n * 2 + int k * n)) [0..<nat m]) @
           fan_top n (n * 2 + m * n + n)) =
         ring_edge n ` cylinder_sides n m"
proof -
  have s: "segment_faces n (n * 2 + int k * n) = segment_faces n ((2 + int k) * n)" for k
    by (simp add: algebra_simps)
  have s1: "2 + int k + 1 = 3 + int k" for k by simp
  have t: "fan_top n (n * 2 + m * n + n) = fan_top n ((m + 3) * n)"
    by (simp add: algebra_simps)
  have eb: "side_set (fan_bottom n 0) =
            ring_edge n ` (X_diag {0} n \<union> Y_back {1} n \<union> Y_down_vert {0} n)"
    using fan_bottom_sides [OF assms(1), of 0] by simp
  have es: "side_set (segment_faces n (n * 2 + int k * n)) =
            ring_edge n ` (Y_fwd {2 + int k} n \<union> X_vert {2 + int k} n \<union>
               Y_down_diag {2 + int k} n \<union> X_diag {2 + int k} n \<union>
               Y_back {3 + int k} n \<union> Y_down_vert {2 + int k} n)" for k
    unfolding s using segment_sides [OF assms(1), of "2 + int k"] by (simp only: s1)
  have et: "side_set (fan_top n (n * 2 + m * n + n)) =
            ring_edge n ` (Y_fwd {m + 3} n \<union> X_spoke (m + 3) n \<union> Y_down_spoke (m + 3) n)"
    unfolding t by (rule fan_top_sides [OF assms(1)])
  have "side_set (fan_bottom n 0 @
           concat (map (\<lambda>k. segment_faces n (n * 2 + int k * n)) [0..<nat m]) @
           fan_top n (n * 2 + m * n + n)) =
        ring_edge n ` (X_diag {0} n \<union> Y_back {1} n \<union> Y_down_vert {0} n \<union>
          (\<Union>k\<in>{0..<nat m}. Y_fwd {2 + int k} n \<union> X_vert {2 + int k} n \<union>
               Y_down_diag {2 + int k} n \<union> X_diag {2 + int k} n \<union>
               Y_back {3 + int k} n \<union> Y_down_vert {2 + int k} n) \<union>
          (Y_fwd {m + 3} n \<union> X_spoke (m + 3) n \<union> Y_down_spoke (m + 3) n))"
    unfolding side_set_append side_set_concat eb es et
    by (simp add: image_Un image_UN Un_assoc)
  also have "X_diag {0} n \<union> Y_back {1} n \<union> Y_down_vert {0} n \<union>
          (\<Union>k\<in>{0..<nat m}. Y_fwd {2 + int k} n \<union> X_vert {2 + int k} n \<union>
               Y_down_diag {2 + int k} n \<union> X_diag {2 + int k} n \<union>
               Y_back {3 + int k} n \<union> Y_down_vert {2 + int k} n) \<union>
          (Y_fwd {m + 3} n \<union> X_spoke (m + 3) n \<union> Y_down_spoke (m + 3) n) =
          cylinder_sides n m"
    unfolding cylinder_sides_def segment_rings(1) [OF assms(2), symmetric]
      segment_rings_up [of m, symmetric] X_Un X_UN Y_Un Y_UN UN_Un_distrib
    by (simp only: Un_ac)
  finally show ?thesis .
qed

lemma cylinder_sides_valid:
  assumes "0 < n" and "e \<in> cylinder_sides n m"
  shows "\<exists>r p r' q. e = (r, p, r', q) \<and> 0 \<le> p \<and> p < n \<and> 0 \<le> q \<and> q < n"
  using assms(2) nxt_range [OF assms(1)] assms(1)
  by (auto simp: cylinder_sides_def X_diag_def X_vert_def X_spoke_def Y_down_vert_def
        Y_down_diag_def Y_down_spoke_def Y_fwd_def Y_back_def)

lemma ring_edge_inj_sides:
  assumes "0 < n"
  shows "inj_on (ring_edge n) (cylinder_sides n m)"
proof (rule inj_onI)
  fix e e' assume e: "e \<in> cylinder_sides n m" and e': "e' \<in> cylinder_sides n m"
    and eq: "ring_edge n e = ring_edge n e'"
  obtain r p r' q where 1: "e = (r, p, r', q)" "0 \<le> p" "p < n" "0 \<le> q" "q < n"
    using cylinder_sides_valid [OF assms e] by blast
  obtain s u s' v where 2: "e' = (s, u, s', v)" "0 \<le> u" "u < n" "0 \<le> v" "v < n"
    using cylinder_sides_valid [OF assms e'] by blast
  from eq have "idx n r p = idx n s u" "idx n r' q = idx n s' v"
    by (simp_all add: ring_edge_def 1(1) 2(1))
  then have "r = s \<and> p = u" "r' = s' \<and> q = v"
    using idx_eq_iff [OF 1(2,3) 2(2,3)] idx_eq_iff [OF 1(4,5) 2(4,5)] by simp_all
  then show "e = e'" by (simp add: 1(1) 2(1))
qed


lemma card_Y:
  assumes "finite R"
  shows "card (Y_down_vert R n) = card R * nat n"
    and "card (Y_down_diag R n) = card R * nat n"
    and "card (Y_fwd R n) = card R * nat n"
    and "card (Y_back R n) = card R * nat n"
proof -
  have "inj_on (\<lambda>(r, p). (r + 1, p, r, p)) (R \<times> {0..<n})"
    by (auto simp: inj_on_def)
  then show "card (Y_down_vert R n) = card R * nat n"
    by (simp add: Y_down_vert_def card_image card_cartesian_product)
  have "inj_on (\<lambda>(r, p). (r + 1, nxt n p, r, p)) (R \<times> {0..<n})"
    by (auto simp: inj_on_def)
  then show "card (Y_down_diag R n) = card R * nat n"
    by (simp add: Y_down_diag_def card_image card_cartesian_product)
  have "inj_on (\<lambda>(r, p). (r, p, r, nxt n p)) (R \<times> {0..<n})"
    by (auto simp: inj_on_def)
  then show "card (Y_fwd R n) = card R * nat n"
    by (simp add: Y_fwd_def card_image card_cartesian_product)
  have "inj_on (\<lambda>(r, p). (r, nxt n p, r, p)) (R \<times> {0..<n})"
    by (auto simp: inj_on_def)
  then show "card (Y_back R n) = card R * nat n"
    by (simp add: Y_back_def card_image card_cartesian_product)
qed

lemma card_Y_down_spoke: "card (Y_down_spoke r n) = nat n"
proof -
  have "inj_on (\<lambda>p. (r + 1, 0::int, r, p)) {0..<n}"
    by (auto simp: inj_on_def)
  then show ?thesis by (simp add: Y_down_spoke_def card_image)
qed

lemma finite_Y:
  assumes "finite R"
  shows "finite (Y_down_vert R n)" "finite (Y_down_diag R n)" "finite (Y_fwd R n)"
    "finite (Y_back R n)"
  using assms by (simp_all add: Y_down_vert_def Y_down_diag_def Y_fwd_def Y_back_def)

lemma finite_Y_down_spoke: "finite (Y_down_spoke r n)"
  by (simp add: Y_down_spoke_def)

lemma nxt_not_back:
  assumes "3 \<le> n" "0 \<le> q" "q < n"
  shows "q \<noteq> nxt n (nxt n q)"
proof (cases "q = n - 1")
  case True
  have "nxt n q = 0" using assms True by (simp add: nxt_eq)
  moreover have "nxt n 0 = 1" using assms(1) nxt_eq [of 0 n] by simp
  ultimately show ?thesis using True assms(1) by simp
next
  case False
  then have 1: "nxt n q = q + 1" using assms by (simp add: nxt_eq)
  have "nxt n (q + 1) = (if q + 1 = n - 1 then 0 else q + 2)"
    using nxt_eq [of "q + 1" n] assms False by simp
  then show ?thesis using assms(1) unfolding 1 by (simp split: if_splits)
qed

lemma card_cylinder_sides:
  assumes "3 \<le> n" "1 \<le> m"
  shows "card (cylinder_sides n m) = (6 * nat m + 6) * nat n"
proof -
  define R0 where "R0 = {0} \<union> {2..m + 1}"
  define R1 where "R1 = {2..m + 1}"
  define Rf where "Rf = {2..m + 1} \<union> {m + 3}"
  define Rb where "Rb = {1} \<union> {3..m + 2}"
  define A1 where "A1 = X_diag R0 n"
  define A2 where "A2 = X_vert R1 n"
  define A3 where "A3 = X_spoke (m + 3) n"
  define A4 where "A4 = Y_down_vert R0 n"
  define A5 where "A5 = Y_down_diag R1 n"
  define A6 where "A6 = Y_down_spoke (m + 3) n"
  define A7 where "A7 = Y_fwd Rf n"
  define A8 where "A8 = Y_back Rb n"
  note A_defs = A1_def A2_def A3_def A4_def A5_def A6_def A7_def A8_def
  note R_defs = R0_def R1_def Rf_def Rb_def
  note XY_defs = X_diag_def X_vert_def X_spoke_def Y_down_vert_def Y_down_diag_def
    Y_down_spoke_def Y_fwd_def Y_back_def
  have n: "0 < n" using assms by simp
  have finR: "finite R0" "finite R1" "finite Rf" "finite Rb" by (simp_all add: R_defs)
  have fin: "finite A1" "finite A2" "finite A3" "finite A4" "finite A5" "finite A6"
    "finite A7" "finite A8"
    unfolding A_defs
    by (simp_all add: finite_X(1) [OF finR(1)] finite_X(2) [OF finR(2)] finite_X(4) [OF finR(1)]
          finite_Y(1) [OF finR(1)] finite_Y(2) [OF finR(2)] finite_Y_down_spoke
          finite_Y(3) [OF finR(3)] finite_Y(4) [OF finR(4)])
  have cardR: "card R0 = nat m + 1" "card R1 = nat m" "card Rf = nat m + 1" "card Rb = nat m + 1"
    using assms(2) by (simp_all add: R_defs)
  have nx: "nxt n p \<noteq> p" if "0 \<le> p" "p < n" for p
    using that assms(1) by (simp add: nxt_eq)
  have d2: "A1 \<inter> A2 = {}"
    using nx by (auto simp: A_defs XY_defs)
  have d3: "(A1 \<union> A2) \<inter> A3 = {}"
    using assms(2) by (auto simp: A_defs R_defs XY_defs)
  have d4: "(A1 \<union> A2 \<union> A3) \<inter> A4 = {}"
    by (auto simp: A_defs XY_defs)
  have nx': "p \<noteq> nxt n p" if "0 \<le> p" "p < n" for p
    using nx [OF that] by simp
  have d5: "(A1 \<union> A2 \<union> A3 \<union> A4) \<inter> A5 = {}"
    using nx' by (auto simp: A_defs XY_defs)
  have d6: "(A1 \<union> A2 \<union> A3 \<union> A4 \<union> A5) \<inter> A6 = {}"
    using assms(2) by (auto simp: A_defs R_defs XY_defs)
  have d7: "(A1 \<union> A2 \<union> A3 \<union> A4 \<union> A5 \<union> A6) \<inter> A7 = {}"
    by (auto simp: A_defs XY_defs)
  have d8: "(A1 \<union> A2 \<union> A3 \<union> A4 \<union> A5 \<union> A6 \<union> A7) \<inter> A8 = {}"
    using nxt_not_back [OF assms(1)] by (auto simp: A_defs XY_defs)
  have "card (cylinder_sides n m) = card (A1 \<union> A2 \<union> A3 \<union> A4 \<union> A5 \<union> A6 \<union> A7 \<union> A8)"
    by (simp only: cylinder_sides_def A_defs R_defs)
  also have "\<dots> = card (A1 \<union> A2 \<union> A3 \<union> A4 \<union> A5 \<union> A6 \<union> A7) + card A8"
    by (rule card_Un_disjoint) (use fin d8 in simp_all)
  also have "card (A1 \<union> A2 \<union> A3 \<union> A4 \<union> A5 \<union> A6 \<union> A7) =
             card (A1 \<union> A2 \<union> A3 \<union> A4 \<union> A5 \<union> A6) + card A7"
    by (rule card_Un_disjoint) (use fin d7 in simp_all)
  also have "card (A1 \<union> A2 \<union> A3 \<union> A4 \<union> A5 \<union> A6) =
             card (A1 \<union> A2 \<union> A3 \<union> A4 \<union> A5) + card A6"
    by (rule card_Un_disjoint) (use fin d6 in simp_all)
  also have "card (A1 \<union> A2 \<union> A3 \<union> A4 \<union> A5) = card (A1 \<union> A2 \<union> A3 \<union> A4) + card A5"
    by (rule card_Un_disjoint) (use fin d5 in simp_all)
  also have "card (A1 \<union> A2 \<union> A3 \<union> A4) = card (A1 \<union> A2 \<union> A3) + card A4"
    by (rule card_Un_disjoint) (use fin d4 in simp_all)
  also have "card (A1 \<union> A2 \<union> A3) = card (A1 \<union> A2) + card A3"
    by (rule card_Un_disjoint) (use fin d3 in simp_all)
  also have "card (A1 \<union> A2) = card A1 + card A2"
    by (rule card_Un_disjoint) (use fin d2 in simp_all)
  also have "card A1 = card R0 * nat n"
    unfolding A1_def by (rule card_X_diag [OF finR(1)])
  also have "card A2 = card R1 * nat n"
    unfolding A2_def by (rule card_X_vert [OF finR(2)])
  also have "card A3 = nat n"
    unfolding A3_def by (rule card_X_spoke)
  also have "card A4 = card R0 * nat n"
    unfolding A4_def by (rule card_Y(1) [OF finR(1)])
  also have "card A5 = card R1 * nat n"
    unfolding A5_def by (rule card_Y(2) [OF finR(2)])
  also have "card A6 = nat n"
    unfolding A6_def by (rule card_Y_down_spoke)
  also have "card A7 = card Rf * nat n"
    unfolding A7_def by (rule card_Y(3) [OF finR(3)])
  also have "card A8 = card Rb * nat n"
    unfolding A8_def by (rule card_Y(4) [OF finR(4)])
  finally show ?thesis
    by (simp add: cardR algebra_simps)
qed


lemma cylinder_sides_distinct:
  assumes "3 \<le> n" "1 \<le> m"
  shows "distinct (concat (map triangle_sides
           (fan_bottom n 0 @
            concat (map (\<lambda>k. segment_faces n (n * 2 + int k * n)) [0..<nat m]) @
            fan_top n (n * 2 + m * n + n))))"
proof -
  let ?F = "fan_bottom n 0 @
            concat (map (\<lambda>k. segment_faces n (n * 2 + int k * n)) [0..<nat m]) @
            fan_top n (n * 2 + m * n + n)"
  have n: "0 < n" using assms by simp
  have "length (concat (map (\<lambda>k. segment_faces n (n * 2 + int k * n)) [0..<nat m])) =
        length [0..<nat m] * (2 * nat n)"
    by (rule length_concat_map) (simp add: length_segment_faces)
  then have F: "length ?F = (2 * nat m + 2) * nat n"
    by (simp add: fan_bottom_def fan_top_def length_range1 algebra_simps)
  have "length (concat (map triangle_sides ?F)) = length ?F * 3"
    by (rule length_concat_map) (simp add: triangle_sides_def)
  then have len: "length (concat (map triangle_sides ?F)) = (6 * nat m + 6) * nat n"
    unfolding F by (simp add: algebra_simps)
  have "card (set (concat (map triangle_sides ?F))) = card (ring_edge n ` cylinder_sides n m)"
    unfolding side_set_def [symmetric] cylinder_side_set [OF n assms(2)] by (rule refl)
  also have "\<dots> = card (cylinder_sides n m)"
    by (rule card_image [OF ring_edge_inj_sides [OF n]])
  also have "\<dots> = length (concat (map triangle_sides ?F))"
    unfolding len by (rule card_cylinder_sides [OF assms])
  finally show ?thesis by (rule card_distinct)
qed

lemma cylinder_closed:
  assumes "3 \<le> dx" "1 \<le> dy"
  shows "\<exists>g0. truncated_cone 1 1 1 dx dy True True = Inr g0 \<and>
              cylinder radius height dx dy True True =
                Inr (edges_to_vertices (make_triangle_edges
                       (g0\<lparr>matrix := Some (scale_transform radius height radius)\<rparr>))) \<and>
              faces g0 = fan_bottom dx 0 @
                concat (map (\<lambda>k. segment_faces dx (dx * 2 + int k * dx)) [0..<nat dy]) @
                fan_top dx (dx * 2 + dy * dx + dx)"
proof -
  have mx: "max dx 3 = dx" "max dy 1 = dy" using assms by simp_all
  obtain g0 where g0: "truncated_cone 1 1 1 dx dy True True = Inr g0"
    using truncated_cone_total by blast
  have "faces g0 = fan_bottom dx 0 @
          concat (map (\<lambda>k. segment_faces dx (dx * 2 + int k * dx)) [0..<nat dy]) @
          fan_top dx (dx * 2 + dy * dx + dx)"
    using g0 unfolding truncated_cone_closed mx by auto
  then show ?thesis using g0 by (simp add: cylinder_def)
qed

lemma cylinder_counts:
  assumes "3 \<le> dx" and "1 \<le> dy"
  shows "\<exists>g. cylinder radius height dx dy True True = Inr g \<and>
           length (vertices g) = nat (dy + 5) * nat dx \<and>
           length (faces g) = (2 * nat dy + 2) * nat dx \<and>
           distinct (drawable_edges g) \<and> set (drawable_edges g) = edge_set (faces g) \<and>
           length (drawable_edges g) = (3 * nat dy + 6) * nat dx \<and>
           int (length (vertices g)) - int (length (drawable_edges g)) + int (length (faces g)) = dx \<and>
           (\<forall>e\<in>set (drawable_edges g).
              1 \<le> triangles_at_edge g e \<and> triangles_at_edge g e \<le> 2) \<and>
           [0, dx] \<in> set (drawable_edges g) \<and>
           triangles_at_edge g [0, dx] = 1"
proof -
  have mx: "max dx 3 = dx" "max dy 1 = dy" using assms by simp_all
  have n: "0 < dx" using assms by simp
  obtain g0 where g0: "truncated_cone 1 1 1 dx dy True True = Inr g0"
    and g: "cylinder radius height dx dy True True =
              Inr (edges_to_vertices (make_triangle_edges
                     (g0\<lparr>matrix := Some (scale_transform radius height radius)\<rparr>)))"
    and f: "faces g0 = fan_bottom dx 0 @
              concat (map (\<lambda>k. segment_faces dx (dx * 2 + int k * dx)) [0..<nat dy]) @
              fan_top dx (dx * 2 + dy * dx + dx)"
    using cylinder_closed [OF assms] by blast
  let ?g = "edges_to_vertices (make_triangle_edges
              (g0\<lparr>matrix := Some (scale_transform radius height radius)\<rparr>))"
  have vs: "vertices ?g = vertices g0" and fs: "faces ?g = faces g0"
    and es: "drawable_edges ?g = remdups (map undirected (concat (map triangle_sides (faces g0))))"
    by (simp_all add: edges_to_vertices_def make_triangle_edges_def)
  have V: "length (vertices g0) = nat (dy + 5) * nat dx"
    using truncated_cone_vertex_count [OF g0] by (simp add: mx add.commute)
  have F: "length (faces g0) = (2 * nat dy + 2) * nat dx"
    using truncated_cone_face_count [OF g0] by (simp add: mx algebra_simps)
  have E: "length (drawable_edges ?g) = (3 * nat dy + 6) * nat dx"
    unfolding es f by (rule cylinder_edge_count [OF assms])
  have euler: "int (nat (dy + 5) * nat dx) - int ((3 * nat dy + 6) * nat dx) +
               int ((2 * nat dy + 2) * nat dx) = dx"
    using assms by (simp add: algebra_simps)
  have "(0, 0, 0 + 1, 0) \<in> X_vert ({0} \<union> {2..dy + 1}) dx"
    using n unfolding X_vert_def by (intro image_eqI [where x = "(0, 0)"]) simp_all
  then have "ring_edge dx (0, 0, 1, 0) \<in> ring_edge dx ` cylinder_edges dx dy"
    by (simp add: cylinder_edges_def)
  then have mem: "[0, dx] \<in> set (drawable_edges ?g)"
    unfolding es f set_remdups edge_set_def [symmetric] cylinder_edge_set [OF n assms(2)]
    by (simp add: ring_edge_def idx_def)
  have one: "triangles_at_edge ?g [0, dx] = 1"
    unfolding triangles_at_edge_def fs f by (rule cylinder_first_edge [OF assms])
  have des: "distinct (drawable_edges ?g)" "set (drawable_edges ?g) = edge_set (faces g0)"
    unfolding es by (simp_all add: edge_set_def)
  have dist: "distinct (concat (map triangle_sides (faces ?g)))"
    unfolding fs f by (rule cylinder_sides_distinct [OF assms])
  have bounds: "\<forall>e\<in>set (drawable_edges ?g).
                  1 \<le> triangles_at_edge ?g e \<and> triangles_at_edge ?g e \<le> 2"
  proof
    fix e assume "e \<in> set (drawable_edges ?g)"
    then have e: "e \<in> set (map undirected (concat (map triangle_sides (faces ?g))))"
      unfolding es fs by simp
    show "1 \<le> triangles_at_edge ?g e \<and> triangles_at_edge ?g e \<le> 2"
      using triangles_at_edge_bounds [OF dist e] by simp
  qed
  have "cylinder radius height dx dy True True = Inr ?g \<and>
        length (vertices ?g) = nat (dy + 5) * nat dx \<and>
        length (faces ?g) = (2 * nat dy + 2) * nat dx \<and>
        distinct (drawable_edges ?g) \<and> set (drawable_edges ?g) = edge_set (faces ?g) \<and>
        length (drawable_edges ?g) = (3 * nat dy + 6) * nat dx \<and>
        int (length (vertices ?g)) - int (length (drawable_edges ?g)) + int (length (faces ?g)) = dx \<and>
        (\<forall>e\<in>set (drawable_edges ?g).
           1 \<le> triangles_at_edge ?g e \<and> triangles_at_edge ?g e \<le> 2) \<and>
        [0, dx] \<in> set (drawable_edges ?g) \<and>
        triangles_at_edge ?g [0, dx] = 1"
    using g euler mem one bounds des unfolding vs fs E V F by simp
  then show ?thesis by (rule exI)
qed

text \<open>
  Claim C2, as amended. For all \<open>dx \<ge> 3\<close> and \<open>dy \<ge> 1\<close>, the mesh of
  \<^verbatim>\<open>cylinder\<close> with both caps has \<open>V = (dy+5) dx\<close> vertices, \<open>F = (2 dy + 2) dx\<close>
  triangles and \<open>E = (3 dy + 6) dx\<close> deduplicated edges (the distinct undirected sides
  of its triangles), so at the index level \<open>V - E + F = dx\<close>. Every deduplicated edge is a side of one or of two triangles,
  and not always of two: the cap rings duplicate the rim rings of the side, and the edge
  between vertex 0 and vertex \<open>dx\<close> of the bottom cap is a side of exactly one
  triangle.
\<close>

theorem cylinder_euler:
  assumes "3 \<le> dx" and "1 \<le> dy"
  shows "\<exists>g. cylinder radius height dx dy True True = Inr g \<and>
           length (vertices g) = nat (dy + 5) * nat dx \<and>
           length (faces g) = (2 * nat dy + 2) * nat dx \<and>
           distinct (drawable_edges g) \<and> set (drawable_edges g) = edge_set (faces g) \<and>
           length (drawable_edges g) = (3 * nat dy + 6) * nat dx \<and>
           int (length (vertices g)) - int (length (drawable_edges g)) + int (length (faces g)) = dx \<and>
           (\<forall>e\<in>set (drawable_edges g).
              1 \<le> triangles_at_edge g e \<and> triangles_at_edge g e \<le> 2) \<and>
           [0, dx] \<in> set (drawable_edges g) \<and>
           triangles_at_edge g [0, dx] = 1"
  using assms by (rule cylinder_counts)

theorem cylinder_euler_witness:
  "\<exists>g. cylinder 50 50 24 1 True True = Inr g \<and>
       length (vertices g) = 144 \<and> length (faces g) = 96 \<and>
       length (drawable_edges g) = 216 \<and>
       int (length (vertices g)) - int (length (drawable_edges g)) + int (length (faces g)) = 24 \<and>
       [0, 24] \<in> set (drawable_edges g) \<and> triangles_at_edge g [0, 24] = 1"
proof -
  obtain g where "cylinder 50 50 24 1 True True = Inr g"
    "length (vertices g) = nat (1 + 5) * nat 24"
    "length (faces g) = (2 * nat 1 + 2) * nat 24"
    "length (drawable_edges g) = (3 * nat 1 + 6) * nat 24"
    "int (length (vertices g)) - int (length (drawable_edges g)) + int (length (faces g)) = 24"
    "[0, 24] \<in> set (drawable_edges g)" "triangles_at_edge g [0, 24] = 1"
    using cylinder_euler [of 24 1 50 50] by auto
  then show ?thesis by simp
qed

text \<open>
  Claim C2 as stated fails at \<^verbatim>\<open>cylinder(50, 50, 3, 1, True, True)\<close>:
  \<open>V - E + F = 18 - 27 + 12 = 3\<close>, not 2, and the deduplicated edge between vertices
  0 and 3 is a side of one triangle, not of two.
\<close>

theorem cylinder_not_closed_counterexample:
  "\<exists>g. cylinder 50 50 3 1 True True = Inr g \<and>
       int (length (vertices g)) - int (length (drawable_edges g)) + int (length (faces g)) = 3 \<and>
       int (length (vertices g)) - int (length (drawable_edges g)) + int (length (faces g)) \<noteq> 2 \<and>
       [0, 3] \<in> set (drawable_edges g) \<and> triangles_at_edge g [0, 3] = 1 \<and>
       triangles_at_edge g [0, 3] \<noteq> 2"
  using cylinder_counts [of 3 1 50 50] by auto

end
